theory Spec2Isabelle
  imports Complex_Main "HOL-Library.AList" "HOL-Library.Multiset"
begin

section \<open>Python values used by the services\<close>

text \<open>
  A Python \<^verbatim>\<open>str\<close> is a sequence of Unicode code points; the Persian literals of the
  source are written here by their code points.  Python integers are \<^typ>\<open>int\<close>.  A Python
  float is an IEEE double: it is modelled by the real number it denotes (no NaN, no infinity),
  and every float literal and every arithmetic operation on floats rounds the exact result to
  the nearest double.
\<close>

type_synonym str = "nat list"

text \<open>Exceptions are values: every service call that can raise returns \<open>exn + 'a\<close>.\<close>

datatype exn = ExternalError | ValidationError | KeyError | IndexError

text \<open>\<^verbatim>\<open>x or default\<close> on an optional integer: \<^verbatim>\<open>None\<close> and \<^verbatim>\<open>0\<close> are falsy.\<close>

definition py_or :: "int option \<Rightarrow> int \<Rightarrow> int" where
  "py_or x d = (case x of None \<Rightarrow> d | Some n \<Rightarrow> if n = 0 then d else n)"

text \<open>The slice \<^verbatim>\<open>xs[:k]\<close>: a negative \<open>k\<close> counts from the end.\<close>

definition py_take :: "int \<Rightarrow> 'a list \<Rightarrow> 'a list" where
  "py_take k xs = (if 0 \<le> k then take (nat k) xs else take (length xs - nat (- k)) xs)"

text \<open>\<^verbatim>\<open>needle in haystack\<close> on strings: a contiguous occurrence.\<close>

fun str_contains :: "'a list \<Rightarrow> 'a list \<Rightarrow> bool" where
  "str_contains xs [] = (xs = [])"
| "str_contains xs (y # ys) = (take (length xs) (y # ys) = xs \<or> str_contains xs ys)"

text \<open>\<^verbatim>\<open>s.strip()\<close>, \<^verbatim>\<open>s.split()\<close> (runs of whitespace separate the tokens) and
  \<^verbatim>\<open>s.split(sep)\<close> for a one-character separator, over a given whitespace predicate.\<close>

definition py_strip :: "(nat \<Rightarrow> bool) \<Rightarrow> str \<Rightarrow> str" where
  "py_strip sp s = rev (dropWhile sp (rev (dropWhile sp s)))"

fun py_split_ws :: "(nat \<Rightarrow> bool) \<Rightarrow> str \<Rightarrow> str \<Rightarrow> str list" where
  "py_split_ws sp cur [] = (if cur = [] then [] else [cur])"
| "py_split_ws sp cur (c # cs) =
     (if sp c then (if cur = [] then py_split_ws sp [] cs else cur # py_split_ws sp [] cs)
      else py_split_ws sp (cur @ [c]) cs)"

fun py_split_on :: "nat \<Rightarrow> str \<Rightarrow> str list" where
  "py_split_on sep [] = [[]]"
| "py_split_on sep (c # cs) =
     (if c = sep then [] # py_split_on sep cs
      else (case py_split_on sep cs of [] \<Rightarrow> [[c]] | w # ws \<Rightarrow> (c # w) # ws))"

text \<open>\<^verbatim>\<open>s.split(sep, 1)\<close>: at most one split, at the first separator.\<close>

definition py_split_once :: "nat \<Rightarrow> str \<Rightarrow> str list" where
  "py_split_once sep s =
     (if sep \<in> set s then [takeWhile (\<lambda>c. c \<noteq> sep) s, tl (dropWhile (\<lambda>c. c \<noteq> sep) s)]
      else [s])"

text \<open>
  Rounding to the nearest double, ties to the even significand.  \<open>binade\<close> finds the
  exponent \<open>e\<close> with \<open>2^e \<le> x < 2^(e+1)\<close> by halving or doubling (the fuel covers the
  exponent range of doubles), the unit in the last place is \<open>2^(e-52)\<close>.  Overflow and
  subnormal numbers are not modelled: the floats the services compute with lie between 0 and 2.
\<close>

fun binade :: "nat \<Rightarrow> real \<Rightarrow> int" where
  "binade 0 x = 0"
| "binade (Suc fuel) x =
     (if 2 \<le> x then binade fuel (x / 2) + 1
      else if x < 1 then binade fuel (2 * x) - 1
      else 0)"

definition pow2 :: "int \<Rightarrow> real" where
  "pow2 k = (if 0 \<le> k then 2 ^ nat k else 1 / 2 ^ nat (- k))"

definition round_half_even :: "real \<Rightarrow> int" where
  "round_half_even q =
     (let f = \<lfloor>q\<rfloor>; r = q - of_int f
      in if r < 1 / 2 then f else if 1 / 2 < r then f + 1 else if even f then f else f + 1)"

definition to_double :: "real \<Rightarrow> real" where
  "to_double x =
     (if x = 0 then 0
      else (let a = \<bar>x\<bar>; ulp = pow2 (binade 1100 a - 52)
            in sgn x * of_int (round_half_even (a / ulp)) * ulp))"

text \<open>\<^verbatim>\<open>x + y\<close> and \<^verbatim>\<open>x * y\<close> on floats, and the float of a (small) integer.\<close>

definition float_add :: "real \<Rightarrow> real \<Rightarrow> real" where
  "float_add x y = to_double (x + y)"

definition float_mul :: "real \<Rightarrow> real \<Rightarrow> real" where
  "float_mul x y = to_double (x * y)"

definition float_of_int :: "int \<Rightarrow> real" where
  "float_of_int n = to_double (of_int n)"

section \<open>Data model\<close>

text \<open>
  Modelled from the spec: the module \<^verbatim>\<open>app/models/schemas.py\<close> (IntentType, Slots, Product,
  RetrievedDocument) is not part of the sources; the types below follow section 3 of the
  specification and the fields the services read and write.  \<open>Slots\<close> carries the field
  \<^verbatim>\<open>product_name\<close> that \<^verbatim>\<open>calculate_confidence\<close> reads.  The field
  \<^verbatim>\<open>comparison_items\<close> holds \<^verbatim>\<open>list(set(...))\<close>, a list without duplicates in an order
  that Python leaves open: it is modelled by the set of its elements.
\<close>

datatype IntentType =
  PRICE_CHECK | AVAILABILITY | FEATURE_INQUIRY | COMPARISON | SHIPPING | PURCHASE | GREETING
  | GENERAL

record Slots =
  product_name :: "str option"
  quantity :: "int option"
  color :: "str option"
  brand :: "str option"
  price_range :: "(string \<times> int) list option"
  comparison_items :: "str set option"

definition empty_slots :: Slots where
  "empty_slots = \<lparr>product_name = None, quantity = None, color = None, brand = None,
     price_range = None, comparison_items = None\<rparr>"

record ParsedQuery =
  original_text :: str
  normalized_text :: str
  pq_intent :: IntentType
  pq_slots :: Slots
  confidence :: real

record Product =
  p_id :: str
  p_name :: str
  p_description :: "str option"
  p_brand :: "str option"

record RetrievedDocument =
  product :: Product
  score :: real
  rank :: "int option"

section \<open>Settings (app/core/config.py)\<close>

record settings =
  RETRIEVAL_TOP_K :: int
  RERANK_TOP_K :: int
  QUERY_VARIATIONS :: int

definition default_settings :: settings where
  "default_settings = \<lparr>RETRIEVAL_TOP_K = 10, RERANK_TOP_K = 3, QUERY_VARIATIONS = 3\<rparr>"

section \<open>IntentDetector (app/services/intent.py)\<close>

text \<open>
  The intent patterns are regular expressions over Persian words.  A pattern is named by its
  intent and its position in the intent's list; the table keeps the order of the dictionary
  literal (Python dictionaries iterate in insertion order) and the number of patterns of each
  intent.  The regular-expression engine and the Unicode tables are library code, taken as
  parameters: \<open>re_search\<close> says whether \<^verbatim>\<open>re.search\<close> finds a pattern, \<open>re_group1\<close> is
  the first group of the first match of a slot pattern, \<open>re_findall\<close> lists the two groups
  (number and unit) of all its matches, and \<open>int_of_digits\<close> is \<^verbatim>\<open>int\<close> on the digits that
  \<^verbatim>\<open>\d+\<close> matched.
\<close>

type_synonym pattern = "IntentType \<times> nat"

datatype slot_pattern = QuantityPattern | PricePattern | ColorPattern | BrandPattern

record engine =
  str_lower :: "str \<Rightarrow> str"
  str_isspace :: "nat \<Rightarrow> bool"
  str_isdigit :: "nat \<Rightarrow> bool"
  int_of_digits :: "str \<Rightarrow> int"
  re_search :: "pattern \<Rightarrow> str \<Rightarrow> bool"
  re_group1 :: "slot_pattern \<Rightarrow> str \<Rightarrow> str option"
  re_findall :: "slot_pattern \<Rightarrow> str \<Rightarrow> (str \<times> str) list"

definition intent_patterns :: "(IntentType \<times> pattern list) list" where
  "intent_patterns =
    [(PRICE_CHECK, map (Pair PRICE_CHECK) [0..<6]),
     (AVAILABILITY, map (Pair AVAILABILITY) [0..<6]),
     (FEATURE_INQUIRY, map (Pair FEATURE_INQUIRY) [0..<10]),
     (COMPARISON, map (Pair COMPARISON) [0..<7]),
     (SHIPPING, map (Pair SHIPPING) [0..<7]),
     (PURCHASE, map (Pair PURCHASE) [0..<4]),
     (GREETING, map (Pair GREETING) [0..<6])]"

text \<open>The inner loop of \<^verbatim>\<open>detect_intent\<close>: one point for every pattern found in the text.\<close>

definition pattern_score :: "engine \<Rightarrow> str \<Rightarrow> pattern list \<Rightarrow> nat" where
  "pattern_score E text_lower patterns = length (filter (\<lambda>p. re_search E p text_lower) patterns)"

definition intent_scores :: "engine \<Rightarrow> str \<Rightarrow> (IntentType \<times> nat) list" where
  "intent_scores E txt =
     (let text_lower = str_lower E txt
      in map (\<lambda>(intent, patterns). (intent, pattern_score E text_lower patterns)) intent_patterns)"

text \<open>\<^verbatim>\<open>max(scores, key=scores.get)\<close>: the keys are visited in dictionary order and a
  later key replaces the current one only when its value is strictly larger.  The dictionary
  of scores has the seven keys of the table, so the case of an empty dictionary in
  \<open>detect_intent\<close> below (where Python's \<^verbatim>\<open>max\<close> would raise) is never taken.\<close>

fun max_key_from :: "'k \<times> nat \<Rightarrow> ('k \<times> nat) list \<Rightarrow> 'k" where
  "max_key_from (k, v) [] = k"
| "max_key_from (k, v) ((k', v') # rest) =
     (if v < v' then max_key_from (k', v') rest else max_key_from (k, v) rest)"

definition detect_intent :: "engine \<Rightarrow> str \<Rightarrow> IntentType" where
  "detect_intent E txt =
     (case intent_scores E txt of
        [] \<Rightarrow> GENERAL
      | s # rest \<Rightarrow>
          if 0 < Max (set (map snd (s # rest))) then max_key_from s rest else GENERAL)"

text \<open>The Persian literals of \<^verbatim>\<open>extract_slots\<close>: the units of the price pattern and the
  two connectors of the comparison heuristic.\<close>

definition MILLION :: str where "MILLION = [0x645, 0x6CC, 0x644, 0x6CC, 0x648, 0x646]"
definition THOUSAND :: str where "THOUSAND = [0x647, 0x632, 0x627, 0x631]"
definition TOMAN :: str where "TOMAN = [0x62A, 0x648, 0x645, 0x627, 0x646]"
definition CONNECTOR_OR :: str where "CONNECTOR_OR = [0x6CC, 0x627]"
definition CONNECTOR_AND :: str where "CONNECTOR_AND = [0x648]"

text \<open>The body of the loop over \<^verbatim>\<open>price_matches\<close>: the number of a match times its unit.\<close>

definition match_price :: "engine \<Rightarrow> str \<times> str \<Rightarrow> int" where
  "match_price E m =
     (let price = int_of_digits E (fst m); unit = snd m
      in if str_contains MILLION unit then price * 1000000
         else if str_contains THOUSAND unit then price * 1000
         else price)"

definition price_range_of :: "int list \<Rightarrow> (string \<times> int) list option" where
  "price_range_of prices =
     (if length prices = 1 then Some [(''min'', 0), (''max'', prices ! 0)]
      else if 2 \<le> length prices then Some [(''min'', Min (set prices)), (''max'', Max (set prices))]
      else None)"

text \<open>The loop over the tokens: a connector that is neither the first nor the last token
  contributes its two neighbours.\<close>

definition comparison_candidates :: "str list \<Rightarrow> str list" where
  "comparison_candidates tokens =
     concat (map (\<lambda>i. if tokens ! i \<in> {CONNECTOR_OR, CONNECTOR_AND} \<and> 0 < i \<and> i < length tokens - 1
                        then [tokens ! (i - 1), tokens ! (i + 1)] else [])
                 [0..<length tokens])"

definition extract_slots :: "engine \<Rightarrow> str \<Rightarrow> Slots" where
  "extract_slots E txt =
     (let slots = empty_slots;
          slots = (case re_group1 E QuantityPattern txt of
                     None \<Rightarrow> slots
                   | Some g \<Rightarrow> slots\<lparr>quantity := Some (int_of_digits E g)\<rparr>);
          slots = (case re_group1 E ColorPattern txt of
                     None \<Rightarrow> slots
                   | Some g \<Rightarrow> slots\<lparr>color := Some g\<rparr>);
          slots = (case re_group1 E BrandPattern txt of
                     None \<Rightarrow> slots
                   | Some g \<Rightarrow> slots\<lparr>brand := Some g\<rparr>);
          price_matches = re_findall E PricePattern txt;
          slots = (if price_matches \<noteq> []
                   then (case price_range_of (map (match_price E) price_matches) of
                           None \<Rightarrow> slots
                         | Some r \<Rightarrow> slots\<lparr>price_range := Some r\<rparr>)
                   else slots);
          slots = (if str_contains CONNECTOR_OR txt \<or> str_contains CONNECTOR_AND txt
                   then (let items = comparison_candidates (py_split_ws (str_isspace E) [] txt)
                         in if items \<noteq> [] then slots\<lparr>comparison_items := Some (set items)\<rparr>
                            else slots)
                   else slots)
      in slots)"

text \<open>Python truthiness of the slot fields: \<^verbatim>\<open>None\<close>, the empty string, the number
  \<open>0\<close>, the empty dictionary and the empty list are falsy.\<close>

definition truthy_set :: "'a set option \<Rightarrow> bool" where
  "truthy_set x = (case x of None \<Rightarrow> False | Some s \<Rightarrow> s \<noteq> {})"

definition truthy_seq :: "'a list option \<Rightarrow> bool" where
  "truthy_seq x = (case x of None \<Rightarrow> False | Some s \<Rightarrow> s \<noteq> [])"

definition truthy_int :: "int option \<Rightarrow> bool" where
  "truthy_int x = (case x of None \<Rightarrow> False | Some n \<Rightarrow> n \<noteq> 0)"

definition slot_count :: "Slots \<Rightarrow> int" where
  "slot_count slots = sum_list
     [if truthy_seq (product_name slots) then 1 else 0,
      if truthy_int (quantity slots) then 1 else 0,
      if truthy_seq (color slots) then 1 else 0,
      if truthy_seq (brand slots) then 1 else 0,
      if truthy_seq (price_range slots) then 1 else 0,
      if truthy_set (comparison_items slots) then 1 else 0]"

text \<open>The confidence is computed in floats: the literals are doubles, \<^verbatim>\<open>+=\<close> and
  \<^verbatim>\<open>*\<close> round.\<close>

definition calculate_confidence :: "IntentType \<Rightarrow> Slots \<Rightarrow> real" where
  "calculate_confidence intent slots =
     (let confidence = to_double 0.5;
          confidence = (if intent \<noteq> GENERAL then float_add confidence (to_double 0.2)
                        else confidence);
          confidence = float_add confidence
                         (min (float_mul (float_of_int (slot_count slots)) (to_double 0.1))
                              (to_double 0.3))
      in min confidence (to_double 1.0))"

definition parse_query :: "engine \<Rightarrow> str \<Rightarrow> str \<Rightarrow> ParsedQuery" where
  "parse_query E normalized original =
     (let intent = detect_intent E normalized;
          slots = extract_slots E normalized
      in \<lparr>original_text = original, normalized_text = normalized, pq_intent = intent,
          pq_slots = slots, confidence = calculate_confidence intent slots\<rparr>)"

section \<open>MultiQueryRetriever (app/services/retriever.py)\<close>

text \<open>
  A search result of the vector index carries the point id, the similarity score and the
  payload.  \<^verbatim>\<open>Product(**result.payload)\<close> validates the payload: it yields the product or
  raises.
\<close>

datatype payload = Payload Product | Malformed

definition Product_of :: "payload \<Rightarrow> exn + Product" where
  "Product_of pl = (case pl of Payload p \<Rightarrow> Inr p | Malformed \<Rightarrow> Inl ValidationError)"

record ScoredPoint =
  sp_id :: str
  sp_score :: real
  sp_payload :: payload

type_synonym vector = "real list"

text \<open>The filter \<^verbatim>\<open>Filter(must=[FieldCondition(key, MatchValue(value)), ...])\<close> is the list
  of its key/value conditions.\<close>

type_synonym qfilter = "(str \<times> str) list"

text \<open>The collaborators of the retriever: the settings, the Unicode tables, the prompt
  template, the language model, the embedding model and the vector index.  Each call may
  raise.\<close>

record retriever_env =
  env_settings :: settings
  env_engine :: engine
  prompt_format :: "str \<Rightarrow> int \<Rightarrow> exn + str"
  llm_invoke :: "str \<Rightarrow> exn + str"
  model_encode :: "str \<Rightarrow> exn + vector"
  qdrant_search :: "vector \<Rightarrow> int \<Rightarrow> qfilter option \<Rightarrow> exn + ScoredPoint list"

text \<open>The characters the parser of the response looks for; the second enumeration marker of
  the source is the bullet U+2022.  \<open>prompt_format\<close> is \<^verbatim>\<open>prompt_template.format\<close> on
  the Persian template, with the query and the number of paraphrases asked for.\<close>

definition NEWLINE :: nat where "NEWLINE = 10"
definition DOT :: nat where "DOT = 46"
definition RPAREN :: nat where "RPAREN = 41"
definition DASH :: nat where "DASH = 45"
definition BULLET :: nat where "BULLET = 0x2022"
definition STAR :: nat where "STAR = 42"
definition SPACE :: nat where "SPACE = 32"

text \<open>The body of the loop over the lines of the response: a line that starts with a digit
  or a bullet yields the text after its numbering, when that text is not empty and is not the
  query itself.\<close>

definition line_variation :: "engine \<Rightarrow> str \<Rightarrow> str \<Rightarrow> str option" where
  "line_variation E query raw =
     (let line = py_strip (str_isspace E) raw
      in if line \<noteq> [] \<and> (str_isdigit E (hd line) \<or> hd line \<in> {DASH, BULLET, STAR})
         then (let parts = (if DOT \<in> set line then py_split_once DOT line
                            else if RPAREN \<in> set line then py_split_once RPAREN line
                            else [line]);
                   variation = (if 1 < length parts then py_strip (str_isspace E) (parts ! 1)
                                else dropWhile (\<lambda>c. c \<in> {DASH, BULLET, STAR, SPACE})
                                       (py_strip (str_isspace E) (parts ! 0)))
               in if variation \<noteq> [] \<and> variation \<noteq> query then Some variation else None)
         else None)"

definition parse_variations :: "engine \<Rightarrow> str \<Rightarrow> str \<Rightarrow> str list" where
  "parse_variations E query content =
     query # List.map_filter (line_variation E query)
               (py_split_on NEWLINE (py_strip (str_isspace E) content))"

text \<open>\<^verbatim>\<open>generate_query_variations\<close>: every exception inside the \<^verbatim>\<open>try\<close> block
  is caught and answered by the original query alone.\<close>

definition generate_query_variations :: "retriever_env \<Rightarrow> str \<Rightarrow> int option \<Rightarrow> str list" where
  "generate_query_variations R query num_variations =
     (let num_variations = py_or num_variations (QUERY_VARIATIONS (env_settings R))
      in case prompt_format R query (num_variations - 1) of
           Inl e \<Rightarrow> [query]
         | Inr prompt \<Rightarrow>
             (case llm_invoke R prompt of
                Inl e \<Rightarrow> [query]
              | Inr content \<Rightarrow>
                  py_take num_variations (parse_variations (env_engine R) query content)))"

definition QUERY_PREFIX :: str where "QUERY_PREFIX = [113, 117, 101, 114, 121, 58, 32]"

definition embed_text :: "retriever_env \<Rightarrow> str \<Rightarrow> exn + vector" where
  "embed_text R txt = model_encode R (QUERY_PREFIX @ txt)"

text \<open>The filter of a search: none unless the dictionary of filters has an entry.\<close>

definition build_filter :: "(str \<times> str) list option \<Rightarrow> qfilter option" where
  "build_filter filters =
     (case filters of
        None \<Rightarrow> None
      | Some items \<Rightarrow> if items = [] then None else Some items)"

text \<open>
  The dictionary \<^verbatim>\<open>all_results\<close> is an association list in insertion order: a new key is
  appended, an existing key keeps its place.  The inner loop replaces the entry of a product id
  when the id is new or the result scores strictly higher.  A payload that does not validate
  raises inside the \<^verbatim>\<open>try\<close> block: the rest of this variation's results is skipped and
  the entries merged so far stay.
\<close>

fun merge_results ::
  "(str \<times> RetrievedDocument) list \<Rightarrow> ScoredPoint list \<Rightarrow> (str \<times> RetrievedDocument) list"
where
  "merge_results all_results [] = all_results"
| "merge_results all_results (r # results) =
     (if (case map_of all_results (sp_id r) of None \<Rightarrow> True | Some d \<Rightarrow> score d < sp_score r)
      then (case Product_of (sp_payload r) of
              Inl e \<Rightarrow> all_results
            | Inr p \<Rightarrow>
                merge_results
                  (AList.update (sp_id r) \<lparr>product = p, score = sp_score r, rank = None\<rparr> all_results)
                  results)
      else merge_results all_results results)"

text \<open>The loop over the query variations.  The embedding is computed outside the
  \<^verbatim>\<open>try\<close> block, so its exception ends the whole search; an exception of the index is
  caught and the variation is skipped.\<close>

fun search_loop ::
  "retriever_env \<Rightarrow> int \<Rightarrow> (str \<times> str) list option \<Rightarrow> str list
     \<Rightarrow> (str \<times> RetrievedDocument) list \<Rightarrow> exn + (str \<times> RetrievedDocument) list"
where
  "search_loop R top_k filters [] all_results = Inr all_results"
| "search_loop R top_k filters (query # queries) all_results =
     (case embed_text R query of
        Inl e \<Rightarrow> Inl e
      | Inr embedding \<Rightarrow>
          (case qdrant_search R embedding top_k (build_filter filters) of
             Inl e \<Rightarrow> search_loop R top_k filters queries all_results
           | Inr results \<Rightarrow>
               search_loop R top_k filters queries (merge_results all_results results)))"

text \<open>\<^verbatim>\<open>sorted(..., key=lambda x: x.score, reverse=True)\<close> is a stable sort by descending
  score; the ranks are then written in list order, starting at 1.\<close>

definition sort_by_score :: "RetrievedDocument list \<Rightarrow> RetrievedDocument list" where
  "sort_by_score docs = sort_key (\<lambda>d. - score d) docs"

definition assign_ranks :: "RetrievedDocument list \<Rightarrow> RetrievedDocument list" where
  "assign_ranks docs = map (\<lambda>(i, doc). doc\<lparr>rank := Some (int i + 1)\<rparr>) (enumerate 0 docs)"

definition search ::
  "retriever_env \<Rightarrow> str list \<Rightarrow> int option \<Rightarrow> (str \<times> str) list option
     \<Rightarrow> exn + RetrievedDocument list"
where
  "search R query_variations top_k filters =
     (let top_k = py_or top_k (RETRIEVAL_TOP_K (env_settings R))
      in case search_loop R top_k filters query_variations [] of
           Inl e \<Rightarrow> Inl e
         | Inr all_results \<Rightarrow>
             Inr (assign_ranks (py_take top_k (sort_by_score (map snd all_results)))))"

definition BRAND_KEY :: str where "BRAND_KEY = [98, 114, 97, 110, 100]"
definition COLOR_KEY :: str where "COLOR_KEY = [99, 111, 108, 111, 114]"

definition slot_filters :: "Slots option \<Rightarrow> (str \<times> str) list" where
  "slot_filters slots =
     (case slots of
        None \<Rightarrow> []
      | Some s \<Rightarrow>
          (if truthy_seq (brand s) then [(BRAND_KEY, the (brand s))] else [])
          @ (if truthy_seq (color s) then [(COLOR_KEY, the (color s))] else []))"

definition retrieve ::
  "retriever_env \<Rightarrow> str \<Rightarrow> IntentType option \<Rightarrow> Slots option \<Rightarrow> exn + RetrievedDocument list"
where
  "retrieve R query intent slots =
     (let variations = generate_query_variations R query None;
          filters = slot_filters slots
      in search R variations None (if filters \<noteq> [] then Some filters else None))"

section \<open>RerankerService (app/services/reranker.py)\<close>

text \<open>
  \<^verbatim>\<open>rerank\<close> writes into the documents it is given, and the caller keeps the list it passed
  in.  Documents are therefore objects in a store: a reference is an address, the heap maps
  every address to the document stored there, and a list of documents is a list of references
  (the same object may occur twice).  The cross-encoder is a collaborator: it may raise, and it
  answers a list of pairs with a list of scores.
\<close>

type_synonym ref = nat
type_synonym heap = "ref \<Rightarrow> RetrievedDocument"

record reranker_env =
  rr_settings :: settings
  model_predict :: "(str \<times> str) list \<Rightarrow> exn + real list"

definition doc_text :: "Product \<Rightarrow> str" where
  "doc_text p =
     p_name p
     @ (if truthy_seq (p_description p) then SPACE # the (p_description p) else [])
     @ (if truthy_seq (p_brand p) then SPACE # the (p_brand p) else [])"

text \<open>\<^verbatim>\<open>for i, doc in enumerate(documents): doc.score = float(scores[i])\<close>; a list of
  scores that is too short raises at the first missing index, after the earlier writes.\<close>

fun write_scores :: "ref list \<Rightarrow> real list \<Rightarrow> heap \<Rightarrow> (exn + unit) \<times> heap" where
  "write_scores [] scores h = (Inr (), h)"
| "write_scores (d # ds) [] h = (Inl IndexError, h)"
| "write_scores (d # ds) (s # ss) h = write_scores ds ss (h(d := (h d)\<lparr>score := s\<rparr>))"

text \<open>\<^verbatim>\<open>for i, doc in enumerate(reranked): doc.rank = i + 1\<close>, counting from \<open>i\<close>.\<close>

fun write_ranks :: "nat \<Rightarrow> ref list \<Rightarrow> heap \<Rightarrow> heap" where
  "write_ranks i [] h = h"
| "write_ranks i (d # ds) h = write_ranks (Suc i) ds (h(d := (h d)\<lparr>rank := Some (int i + 1)\<rparr>))"

definition rerank ::
  "reranker_env \<Rightarrow> str \<Rightarrow> ref list \<Rightarrow> int option \<Rightarrow> heap \<Rightarrow> (exn + ref list) \<times> heap" where
  "rerank E query documents top_k h =
     (if documents = [] then (Inr [], h)
      else
        (let top_k = py_or top_k (RERANK_TOP_K (rr_settings E));
             pairs = map (\<lambda>doc. (query, doc_text (product (h doc)))) documents
         in case model_predict E pairs of
              Inl e \<Rightarrow> (Inl e, h)
            | Inr scores \<Rightarrow>
                (case write_scores documents scores h of
                   (Inl e, h1) \<Rightarrow> (Inl e, h1)
                 | (Inr u, h1) \<Rightarrow>
                     (let reranked = py_take top_k (sort_key (\<lambda>doc. - score (h1 doc)) documents)
                      in (Inr reranked, write_ranks 0 reranked h1)))))"

text \<open>The reranker on a list of document values, as a caller that holds no other reference
  sees it: the documents are stored at the addresses 0, 1, ..., the result is the reranked list
  and the list that was passed in, both read after the call.\<close>

definition rerank_values ::
  "reranker_env \<Rightarrow> str \<Rightarrow> RetrievedDocument list
     \<Rightarrow> exn + (RetrievedDocument list \<times> RetrievedDocument list)" where
  "rerank_values E query docs =
     (let refs = [0..<length docs]; h = (\<lambda>r. docs ! r)
      in case rerank E query refs None h of
           (Inl e, h') \<Rightarrow> Inl e
         | (Inr reranked, h') \<Rightarrow> Inr (map h' reranked, map h' refs))"

section \<open>RAGPipeline (app/chains/rag_chain.py)\<close>

text \<open>
  The state dictionary is a record; a key that may be missing is an optional field, and reading
  a missing key with \<^verbatim>\<open>state[key]\<close> raises \<open>KeyError\<close>.  The services are collaborators,
  each call may raise.  The reranker returns the reranked list and, because it writes into the
  documents, the retrieved list as it is after the call.
\<close>

record RAGState =
  st_query :: str
  user_id :: str
  session_id :: "str option"
  from_cache :: bool
  final_response :: "str option"
  normalized_query :: "str option"
  st_intent :: "IntentType option"
  st_slots :: "Slots option"
  retrieved_docs :: "RetrievedDocument list option"
  reranked_docs :: "RetrievedDocument list option"

record pipeline_env =
  cache_get :: "str \<Rightarrow> exn + str option"
  cache_set :: "str \<Rightarrow> str \<Rightarrow> exn + unit"
  preprocessor_preprocess :: "str \<Rightarrow> exn + str"
  intent_detector_parse_query :: "str \<Rightarrow> str \<Rightarrow> exn + ParsedQuery"
  retriever_retrieve ::
    "str \<Rightarrow> IntentType option \<Rightarrow> Slots option \<Rightarrow> exn + RetrievedDocument list"
  reranker_rerank ::
    "str \<Rightarrow> RetrievedDocument list \<Rightarrow> exn + (RetrievedDocument list \<times> RetrievedDocument list)"
  generator_generate :: "str \<Rightarrow> IntentType \<Rightarrow> RetrievedDocument list \<Rightarrow> exn + str"

datatype node = CheckCache | Preprocess | DetectIntent | Retrieve | Rerank | Generate | CacheResponse

datatype route = USE_CACHE | CONTINUE | RETRIEVE | SKIP_RETRIEVAL

definition check_cache :: "pipeline_env \<Rightarrow> RAGState \<Rightarrow> exn + RAGState" where
  "check_cache P state =
     (case cache_get P (st_query state) of
        Inl e \<Rightarrow> Inl e
      | Inr cached_response \<Rightarrow>
          Inr (if truthy_seq cached_response
               then state\<lparr>final_response := cached_response, from_cache := True\<rparr>
               else state))"

definition should_use_cache :: "RAGState \<Rightarrow> route" where
  "should_use_cache state = (if from_cache state then USE_CACHE else CONTINUE)"

definition preprocess :: "pipeline_env \<Rightarrow> RAGState \<Rightarrow> exn + RAGState" where
  "preprocess P state =
     (case preprocessor_preprocess P (st_query state) of
        Inl e \<Rightarrow> Inl e
      | Inr normalized \<Rightarrow> Inr (state\<lparr>normalized_query := Some normalized\<rparr>))"

definition detect_intent_node :: "pipeline_env \<Rightarrow> RAGState \<Rightarrow> exn + RAGState" where
  "detect_intent_node P state =
     (case normalized_query state of
        None \<Rightarrow> Inl KeyError
      | Some normalized \<Rightarrow>
          (case intent_detector_parse_query P normalized (st_query state) of
             Inl e \<Rightarrow> Inl e
           | Inr parsed \<Rightarrow>
               Inr (state\<lparr>st_intent := Some (pq_intent parsed), st_slots := Some (pq_slots parsed)\<rparr>)))"

definition should_retrieve :: "RAGState \<Rightarrow> route" where
  "should_retrieve state = (if st_intent state = Some GREETING then SKIP_RETRIEVAL else RETRIEVE)"

definition retrieve_node :: "pipeline_env \<Rightarrow> RAGState \<Rightarrow> exn + RAGState" where
  "retrieve_node P state =
     (case normalized_query state of
        None \<Rightarrow> Inl KeyError
      | Some normalized \<Rightarrow>
          (case retriever_retrieve P normalized (st_intent state) (st_slots state) of
             Inl e \<Rightarrow> Inl e
           | Inr docs \<Rightarrow> Inr (state\<lparr>retrieved_docs := Some docs\<rparr>)))"

definition rerank_node :: "pipeline_env \<Rightarrow> RAGState \<Rightarrow> exn + RAGState" where
  "rerank_node P state =
     (case normalized_query state of
        None \<Rightarrow> Inl KeyError
      | Some normalized \<Rightarrow>
          (if truthy_seq (retrieved_docs state)
           then (case reranker_rerank P normalized (the (retrieved_docs state)) of
                   Inl e \<Rightarrow> Inl e
                 | Inr (reranked, retrieved) \<Rightarrow>
                     Inr (state\<lparr>retrieved_docs := Some retrieved, reranked_docs := Some reranked\<rparr>))
           else Inr (state\<lparr>reranked_docs := Some []\<rparr>)))"

definition generate :: "pipeline_env \<Rightarrow> RAGState \<Rightarrow> exn + RAGState" where
  "generate P state =
     (case generator_generate P (st_query state)
             (case st_intent state of None \<Rightarrow> GENERAL | Some i \<Rightarrow> i)
             (case reranked_docs state of None \<Rightarrow> [] | Some docs \<Rightarrow> docs) of
        Inl e \<Rightarrow> Inl e
      | Inr response \<Rightarrow> Inr (state\<lparr>final_response := Some response\<rparr>))"

definition cache_response :: "pipeline_env \<Rightarrow> RAGState \<Rightarrow> exn + RAGState" where
  "cache_response P state =
     (case final_response state of
        None \<Rightarrow> Inl KeyError
      | Some response \<Rightarrow>
          (case cache_set P (st_query state) response of
             Inl e \<Rightarrow> Inl e
           | Inr u \<Rightarrow> Inr state))"

text \<open>The graph of \<^verbatim>\<open>_build_graph\<close>: the function of every node, and the edge that leaves
  it (\<open>None\<close> is \<^verbatim>\<open>END\<close>).\<close>

fun run_node :: "pipeline_env \<Rightarrow> node \<Rightarrow> RAGState \<Rightarrow> exn + RAGState" where
  "run_node P CheckCache = check_cache P"
| "run_node P Preprocess = preprocess P"
| "run_node P DetectIntent = detect_intent_node P"
| "run_node P Retrieve = retrieve_node P"
| "run_node P Rerank = rerank_node P"
| "run_node P Generate = generate P"
| "run_node P CacheResponse = cache_response P"

fun next_node :: "node \<Rightarrow> RAGState \<Rightarrow> node option" where
  "next_node CheckCache state =
     (case should_use_cache state of USE_CACHE \<Rightarrow> None | _ \<Rightarrow> Some Preprocess)"
| "next_node Preprocess state = Some DetectIntent"
| "next_node DetectIntent state =
     (case should_retrieve state of SKIP_RETRIEVAL \<Rightarrow> Some Generate | _ \<Rightarrow> Some Retrieve)"
| "next_node Retrieve state = Some Rerank"
| "next_node Rerank state = Some Generate"
| "next_node Generate state = Some CacheResponse"
| "next_node CacheResponse state = None"

definition stage :: "node \<Rightarrow> nat" where
  "stage n = (case n of CheckCache \<Rightarrow> 6 | Preprocess \<Rightarrow> 5 | DetectIntent \<Rightarrow> 4 | Retrieve \<Rightarrow> 3
              | Rerank \<Rightarrow> 2 | Generate \<Rightarrow> 1 | CacheResponse \<Rightarrow> 0)"

text \<open>Running the graph from a node: the trace lists every node that was run with its outcome,
  the state it returned or the exception that ended the run.\<close>

function run_from :: "pipeline_env \<Rightarrow> node \<Rightarrow> RAGState \<Rightarrow> (node \<times> (exn + RAGState)) list" where
  "run_from P n state =
     (case run_node P n state of
        Inl e \<Rightarrow> [(n, Inl e)]
      | Inr state' \<Rightarrow>
          (n, Inr state') #
            (case next_node n state' of None \<Rightarrow> [] | Some n' \<Rightarrow> run_from P n' state'))"
  by pat_completeness auto
termination
proof (relation "measure (\<lambda>(P, n, state). stage n)")
  show "wf (measure (\<lambda>(P, n, state). stage n))" by simp
next
  fix P :: pipeline_env and n state state' n'
  assume "next_node n state' = Some n'"
  then show "((P, n', state'), (P, n, state)) \<in> measure (\<lambda>(P, n, state). stage n)"
    by (cases n) (auto simp: stage_def split: route.splits)
qed

declare run_from.simps [simp del]

definition initial_state :: "str \<Rightarrow> str \<Rightarrow> str option \<Rightarrow> RAGState" where
  "initial_state query uid sid =
     \<lparr>st_query = query, user_id = uid, session_id = sid, from_cache = False,
      final_response = None, normalized_query = None, st_intent = None, st_slots = None,
      retrieved_docs = None, reranked_docs = None\<rparr>"

definition run_trace ::
  "pipeline_env \<Rightarrow> str \<Rightarrow> str \<Rightarrow> str option \<Rightarrow> (node \<times> (exn + RAGState)) list" where
  "run_trace P query uid sid = run_from P CheckCache (initial_state query uid sid)"

definition run :: "pipeline_env \<Rightarrow> str \<Rightarrow> str \<Rightarrow> str option \<Rightarrow> exn + RAGState" where
  "run P query uid sid = snd (last (run_trace P query uid sid))"

section \<open>Vocabulary of the statements\<close>

text \<open>About the classifier: the order in which the intents are enumerated, the number of an
  intent's patterns found in the lower-cased text, and the price values of a text (one for
  every match of the price pattern).\<close>

definition enumeration_order :: "IntentType list" where
  "enumeration_order =
     [PRICE_CHECK, AVAILABILITY, FEATURE_INQUIRY, COMPARISON, SHIPPING, PURCHASE, GREETING]"

definition match_count :: "engine \<Rightarrow> str \<Rightarrow> IntentType \<Rightarrow> nat" where
  "match_count E txt i =
     (case map_of intent_patterns i of
        None \<Rightarrow> 0
      | Some ps \<Rightarrow> length (filter (\<lambda>p. re_search E p (str_lower E txt)) ps))"

definition prices_of :: "engine \<Rightarrow> str \<Rightarrow> int list" where
  "prices_of E txt = map (match_price E) (re_findall E PricePattern txt)"



text \<open>About the fusion: the effective result width, the results one variation contributes
  (none when its search raises), all results observed for a list of variations, and a result
  whose payload validates to a product that has the id of the point.\<close>

definition effective_top_k :: "retriever_env \<Rightarrow> int option \<Rightarrow> int" where
  "effective_top_k R top_k = py_or top_k (RETRIEVAL_TOP_K (env_settings R))"

definition variation_results ::
  "retriever_env \<Rightarrow> int \<Rightarrow> (str \<times> str) list option \<Rightarrow> str \<Rightarrow> ScoredPoint list" where
  "variation_results R top_k filters query =
     (case embed_text R query of
        Inl e \<Rightarrow> []
      | Inr embedding \<Rightarrow>
          (case qdrant_search R embedding top_k (build_filter filters) of
             Inl e \<Rightarrow> []
           | Inr results \<Rightarrow> results))"

definition observed ::
  "retriever_env \<Rightarrow> int \<Rightarrow> (str \<times> str) list option \<Rightarrow> str list \<Rightarrow> ScoredPoint list" where
  "observed R top_k filters queries = concat (map (variation_results R top_k filters) queries)"

definition well_formed :: "ScoredPoint \<Rightarrow> bool" where
  "well_formed r = (case sp_payload r of Payload p \<Rightarrow> p_id p = sp_id r | Malformed \<Rightarrow> False)"

text \<open>The effective variation count of \<^verbatim>\<open>generate_query_variations\<close>.\<close>

definition effective_variations :: "retriever_env \<Rightarrow> int option \<Rightarrow> int" where
  "effective_variations R num_variations = py_or num_variations (QUERY_VARIATIONS (env_settings R))"

text \<open>The invariant of the fusion loop: the dictionary \<open>m\<close> has one entry for every product
  id among the results \<open>H\<close> merged so far, and the entry of an id carries a product of that id
  and the largest score among the results of that id.\<close>

definition fused :: "(str \<times> RetrievedDocument) list \<Rightarrow> ScoredPoint list \<Rightarrow> bool" where
  "fused m H \<longleftrightarrow>
     distinct (map fst m)
     \<and> (\<forall>i. case map_of m i of
              None \<Rightarrow> i \<notin> sp_id ` set H
            | Some d \<Rightarrow> p_id (product d) = i
                 \<and> (\<exists>h\<in>set H. sp_id h = i \<and> sp_score h = score d)
                 \<and> (\<forall>h\<in>set H. sp_id h = i \<longrightarrow> sp_score h \<le> score d))"

text \<open>About the reranker: the effective result width, the score the cross-encoder gives a
  stored document, and a cross-encoder that scores every pair on its own, by a function
  \<open>ce\<close> of the query and the document text.\<close>

definition effective_rerank_top_k :: "reranker_env \<Rightarrow> int option \<Rightarrow> int" where
  "effective_rerank_top_k E top_k = py_or top_k (RERANK_TOP_K (rr_settings E))"

definition ce_score :: "(str \<Rightarrow> str \<Rightarrow> real) \<Rightarrow> str \<Rightarrow> heap \<Rightarrow> ref \<Rightarrow> real" where
  "ce_score ce query h doc = ce query (doc_text (product (h doc)))"

definition scores_pairwise :: "reranker_env \<Rightarrow> (str \<Rightarrow> str \<Rightarrow> real) \<Rightarrow> bool" where
  "scores_pairwise E ce \<longleftrightarrow> (\<forall>pairs. model_predict E pairs = Inr (map (\<lambda>(q, t). ce q t) pairs))"

text \<open>The score-written heap of the reranker: every listed document carries its cross-encoder
  score, all else is as before.\<close>

definition scored :: "(str \<Rightarrow> str \<Rightarrow> real) \<Rightarrow> str \<Rightarrow> ref list \<Rightarrow> heap \<Rightarrow> heap" where
  "scored ce query documents h =
     (\<lambda>r. if r \<in> set documents then (h r)\<lparr>score := ce_score ce query h r\<rparr> else h r)"

section \<open>Example collaborators and inputs\<close>

text \<open>A small engine.  It knows ASCII digits and blanks, finds the fourth availability
  pattern, the second purchase pattern and the first greeting pattern as literal words, and
  lists the price matches of three texts: \<open>txt_one\<close> mentions 2 million, \<open>txt_two\<close>
  mentions 500 thousand and then 2 million, \<open>txt_two_rev\<close> the same two in the other
  order.\<close>

definition WORD_HAST :: str where "WORD_HAST = [0x647, 0x633, 0x62A]"
definition WORD_KHARID :: str where "WORD_KHARID = [0x62E, 0x631, 0x6CC, 0x62F]"
definition WORD_SALAM :: str where "WORD_SALAM = [0x633, 0x644, 0x627, 0x645]"

definition txt_tie :: str where "txt_tie = WORD_KHARID @ [32] @ WORD_HAST"
definition txt_one :: str where "txt_one = [50, 32] @ MILLION"
definition txt_two :: str where "txt_two = [53, 48, 48, 32] @ THOUSAND @ [32, 50, 32] @ MILLION"
definition txt_two_rev :: str where
  "txt_two_rev = [50, 32] @ MILLION @ [32, 53, 48, 48, 32] @ THOUSAND"

definition engine0 :: engine where
  "engine0 = \<lparr>
     str_lower = (\<lambda>s. s),
     str_isspace = (\<lambda>c. c = 32 \<or> c = 10),
     str_isdigit = (\<lambda>c. 48 \<le> c \<and> c \<le> 57),
     int_of_digits = (\<lambda>s. fold (\<lambda>c n. 10 * n + (int c - 48)) s 0),
     re_search = (\<lambda>p s. p = (AVAILABILITY, 3) \<and> str_contains WORD_HAST s
                       \<or> p = (PURCHASE, 1) \<and> str_contains WORD_KHARID s
                       \<or> p = (GREETING, 0) \<and> str_contains WORD_SALAM s),
     re_group1 = (\<lambda>k s. None),
     re_findall = (\<lambda>k s.
        if k \<noteq> PricePattern then []
        else if s = txt_one then [([50], MILLION)]
        else if s = txt_two then [([53, 48, 48], THOUSAND), ([50], MILLION)]
        else if s = txt_two_rev then [([50], MILLION), ([53, 48, 48], THOUSAND)]
        else [])\<rparr>"




text \<open>Collaborators of the retriever.  The toy embedding of a text is its length; the
  index answers the first variation \<open>q1\<close> with product P at 0.7 and product Q at 0.5, the
  second variation \<open>q2\<close> with product P at 0.9, and raises on every other vector.  The language
  model answers with two numbered paraphrases.\<close>

definition product_P :: Product where
  "product_P = \<lparr>p_id = [80], p_name = [80, 49], p_description = None, p_brand = None\<rparr>"

definition product_Q :: Product where
  "product_Q = \<lparr>p_id = [81], p_name = [81, 49], p_description = Some [100], p_brand = None\<rparr>"

definition point :: "Product \<Rightarrow> real \<Rightarrow> ScoredPoint" where
  "point p s = \<lparr>sp_id = p_id p, sp_score = s, sp_payload = Payload p\<rparr>"

definition q1 :: str where "q1 = [97]"
definition q2 :: str where "q2 = [98, 98]"

definition llm_answer :: str where
  "llm_answer = [49, 46, 32, 98, 98, 10, 50, 46, 32, 99, 99, 99]"

definition retriever0 :: retriever_env where
  "retriever0 = \<lparr>
     env_settings = default_settings,
     env_engine = engine0,
     prompt_format = (\<lambda>query n. Inr query),
     llm_invoke = (\<lambda>prompt. Inr llm_answer),
     model_encode = (\<lambda>s. Inr [real (length s)]),
     qdrant_search = (\<lambda>v k f.
        if v = [8] then Inr [point product_P 0.7, point product_Q 0.5]
        else if v = [9] then Inr [point product_P 0.9]
        else Inl ExternalError)\<rparr>"

definition fused_docs :: "RetrievedDocument list" where
  "fused_docs = [\<lparr>product = product_P, score = 0.9, rank = Some 1\<rparr>,
                 \<lparr>product = product_Q, score = 0.5, rank = Some 2\<rparr>]"

text \<open>The example retriever with a language model that is down, and with a prompt template
  that cannot be formatted.\<close>

definition retriever_down :: retriever_env where
  "retriever_down = retriever0\<lparr>llm_invoke := (\<lambda>prompt. Inl ExternalError)\<rparr>"

definition retriever_noprompt :: retriever_env where
  "retriever_noprompt = retriever0\<lparr>prompt_format := (\<lambda>query n. Inl KeyError)\<rparr>"

text \<open>An index with a point X whose payload does not validate: it answers \<open>q1\<close> with X at
  0.95 and then product P at 0.9, and \<open>q2\<close> with product P at 0.7.  And an index that stores
  the payload of product P under two point ids, its own and \<open>[82]\<close>.\<close>

definition point_X :: ScoredPoint where
  "point_X = \<lparr>sp_id = [88], sp_score = 0.95, sp_payload = Malformed\<rparr>"

definition retriever_bad :: retriever_env where
  "retriever_bad = retriever0\<lparr>qdrant_search := (\<lambda>v k f.
        if v = [8] then Inr [point_X, point product_P 0.9]
        else if v = [9] then Inr [point product_P 0.7]
        else Inl ExternalError)\<rparr>"

definition point_P_alias :: ScoredPoint where
  "point_P_alias = \<lparr>sp_id = [82], sp_score = 0.7, sp_payload = Payload product_P\<rparr>"

definition retriever_alias :: retriever_env where
  "retriever_alias = retriever0\<lparr>qdrant_search := (\<lambda>v k f.
        if v = [8] then Inr [point product_P 0.9, point_P_alias]
        else Inl ExternalError)\<rparr>"

text \<open>Collaborators of the reranker.  The toy cross-encoder scores a pair by a tenth of
  the length of the document text.  The heap holds four retrieved documents at the addresses
  0 to 3, with vector scores 0.9, 0.8, 0.7, 0.6 and names of 1, 4, 2 and 3 characters.\<close>

definition ce0 :: "str \<Rightarrow> str \<Rightarrow> real" where
  "ce0 q t = real (length t) / 10"

definition reranker0 :: reranker_env where
  "reranker0 = \<lparr>rr_settings = default_settings,
                 model_predict = (\<lambda>pairs. Inr (map (\<lambda>(q, t). ce0 q t) pairs))\<rparr>"

definition named :: "str \<Rightarrow> Product" where
  "named n = \<lparr>p_id = n, p_name = n, p_description = None, p_brand = None\<rparr>"

definition docs0 :: "RetrievedDocument list" where
  "docs0 = [\<lparr>product = named [97], score = 0.9, rank = Some 1\<rparr>,
            \<lparr>product = named [98, 98, 98, 98], score = 0.8, rank = Some 2\<rparr>,
            \<lparr>product = named [99, 99], score = 0.7, rank = Some 3\<rparr>,
            \<lparr>product = named [100, 100, 100], score = 0.6, rank = Some 4\<rparr>]"

definition heap0 :: heap where
  "heap0 r = (if r < 4 then docs0 ! r else \<lparr>product = named [], score = 0, rank = None\<rparr>)"

text \<open>A pipeline over the services above: the cache knows the answer to \<open>q1\<close>, the
  preprocessor returns the query as it is, the generator answers with a fixed text.\<close>

definition cached_answer :: str where "cached_answer = [111, 107]"

definition pipeline0 :: pipeline_env where
  "pipeline0 = \<lparr>
     cache_get = (\<lambda>q. Inr (if q = q1 then Some cached_answer else None)),
     cache_set = (\<lambda>q r. Inr ()),
     preprocessor_preprocess = (\<lambda>q. Inr q),
     intent_detector_parse_query = (\<lambda>normalized original. Inr (parse_query engine0 normalized original)),
     retriever_retrieve = retrieve retriever0,
     reranker_rerank = rerank_values reranker0,
     generator_generate = (\<lambda>q i docs. Inr [33])\<rparr>"

section \<open>Verification of the classifier\<close>

subsection \<open>Intent detection\<close>

lemma max_key_from_split:
  "\<exists>pre w post. (k, v) # rest = pre @ (max_key_from (k, v) rest, w) # post
     \<and> (\<forall>x\<in>set pre. snd x < w) \<and> (\<forall>x\<in>set post. snd x \<le> w)"
proof (induction rest arbitrary: k v)
  case Nil
  have "(k, v) # [] = [] @ (max_key_from (k, v) [], v) # []
     \<and> (\<forall>x\<in>set []. snd x < v) \<and> (\<forall>x\<in>set []. snd x \<le> v)" by simp
  then show ?case by blast
next
  case (Cons a rest)
  obtain k' v' where a: "a = (k', v')" by (cases a)
  show ?case
  proof (cases "v < v'")
    case True
    from Cons.IH [of k' v'] obtain pre w post where
      s: "(k', v') # rest = pre @ (max_key_from (k', v') rest, w) # post"
      and lt: "\<forall>x\<in>set pre. snd x < w" and le: "\<forall>x\<in>set post. snd x \<le> w" by blast
    have "v' \<le> w" using s lt by (cases pre) auto
    with True have "v < w" by simp
    moreover have m: "max_key_from (k, v) (a # rest) = max_key_from (k', v') rest"
      using True a by simp
    moreover have "(k, v) # a # rest = ((k, v) # pre) @ (max_key_from (k', v') rest, w) # post"
      using s a by simp
    ultimately
    have "(k, v) # a # rest = ((k, v) # pre) @ (max_key_from (k, v) (a # rest), w) # post
       \<and> (\<forall>x\<in>set ((k, v) # pre). snd x < w) \<and> (\<forall>x\<in>set post. snd x \<le> w)"
      using lt le by simp
    then show ?thesis by blast
  next
    case False
    from Cons.IH [of k v] obtain pre w post where
      s: "(k, v) # rest = pre @ (max_key_from (k, v) rest, w) # post"
      and lt: "\<forall>x\<in>set pre. snd x < w" and le: "\<forall>x\<in>set post. snd x \<le> w" by blast
    have m: "max_key_from (k, v) (a # rest) = max_key_from (k, v) rest"
      using False a by simp
    show ?thesis
    proof (cases pre)
      case Nil
      with s have e: "max_key_from (k, v) rest = k" "w = v" "post = rest" by auto
      have "(k, v) # a # rest = [] @ (max_key_from (k, v) (a # rest), v) # (a # rest)
         \<and> (\<forall>x\<in>set []. snd x < v) \<and> (\<forall>x\<in>set (a # rest). snd x \<le> v)"
        unfolding m using e le False a by auto
      then show ?thesis by blast
    next
      case (Cons b pre')
      with s have b: "b = (k, v)" and r: "rest = pre' @ (max_key_from (k, v) rest, w) # post"
        by auto
      from lt Cons b have "v < w" by simp
      moreover have "(k, v) # a # rest = ((k, v) # a # pre') @ (max_key_from (k, v) rest, w) # post"
        using r by simp
      ultimately
      have "(k, v) # a # rest = ((k, v) # a # pre') @ (max_key_from (k, v) (a # rest), w) # post
         \<and> (\<forall>x\<in>set ((k, v) # a # pre'). snd x < w) \<and> (\<forall>x\<in>set post. snd x \<le> w)"
        unfolding m using lt le False a Cons by auto
      then show ?thesis by blast
    qed
  qed
qed

lemma intent_scores_eq:
  "intent_scores E txt = map (\<lambda>i. (i, match_count E txt i)) enumeration_order"
  by (simp add: intent_scores_def intent_patterns_def enumeration_order_def match_count_def
      pattern_score_def Let_def)

lemma match_count_zero_iff:
  "(\<forall>i\<in>set enumeration_order. match_count E txt i = 0) \<longleftrightarrow>
   (\<forall>(i, ps)\<in>set intent_patterns. \<forall>p\<in>set ps. \<not> re_search E p (str_lower E txt))"
  by (simp add: enumeration_order_def match_count_def intent_patterns_def filter_empty_conv
      del: upt.simps set_upt)

lemma enumeration_order_no_GENERAL: "GENERAL \<notin> set enumeration_order"
  by (simp add: enumeration_order_def)

lemma detect_intent_cases:
  "detect_intent E txt =
     (if \<exists>i\<in>set enumeration_order. 0 < match_count E txt i
      then max_key_from (PRICE_CHECK, match_count E txt PRICE_CHECK)
             (map (\<lambda>i. (i, match_count E txt i)) (tl enumeration_order))
      else GENERAL)"
  by (simp add: detect_intent_def intent_scores_eq enumeration_order_def Max_gr_iff)

text \<open>
  Claim C3.  \<^verbatim>\<open>detect_intent\<close> returns GENERAL exactly when no intent pattern is found in
  the lower-cased text.  Otherwise it returns an intent of the enumeration PRICE_CHECK,
  AVAILABILITY, FEATURE_INQUIRY, COMPARISON, SHIPPING, PURCHASE, GREETING whose number of
  matching patterns is maximal, and it is the first such intent: every intent before it in the
  enumeration has strictly fewer matching patterns, every intent after it has at most as many.
\<close>

theorem detect_intent_first_maximum:
  "(detect_intent E txt = GENERAL \<longleftrightarrow>
      (\<forall>(i, ps)\<in>set intent_patterns. \<forall>p\<in>set ps. \<not> re_search E p (str_lower E txt)))
   \<and> (detect_intent E txt \<noteq> GENERAL \<longrightarrow>
        (\<exists>pre post. enumeration_order = pre @ detect_intent E txt # post
           \<and> (\<forall>j\<in>set pre. match_count E txt j < match_count E txt (detect_intent E txt))
           \<and> (\<forall>j\<in>set post. match_count E txt j \<le> match_count E txt (detect_intent E txt))))"
proof (cases "\<exists>i\<in>set enumeration_order. 0 < match_count E txt i")
  case False
  then have "\<forall>i\<in>set enumeration_order. match_count E txt i = 0" by simp
  then have "\<forall>(i, ps)\<in>set intent_patterns. \<forall>p\<in>set ps. \<not> re_search E p (str_lower E txt)"
    by (simp only: match_count_zero_iff)
  moreover have "detect_intent E txt = GENERAL"
    using False by (simp only: detect_intent_cases if_False)
  ultimately show ?thesis by simp
next
  case True
  define r where "r = detect_intent E txt"
  define f where "f = (\<lambda>i. (i, match_count E txt i))"
  have r: "r = max_key_from (f PRICE_CHECK) (map f (tl enumeration_order))"
    using True unfolding r_def f_def by (simp only: detect_intent_cases if_True)
  have ord: "map f enumeration_order = f PRICE_CHECK # map f (tl enumeration_order)"
    by (simp add: enumeration_order_def)
  have fp: "(PRICE_CHECK, match_count E txt PRICE_CHECK) = f PRICE_CHECK" by (simp add: f_def)
  from max_key_from_split
    [of PRICE_CHECK "match_count E txt PRICE_CHECK" "map f (tl enumeration_order)"]
  obtain pre w post where
    s: "map f enumeration_order = pre @ (r, w) # post"
    and lt: "\<forall>x\<in>set pre. snd x < w" and le: "\<forall>x\<in>set post. snd x \<le> w"
    unfolding fp ord [symmetric] r [symmetric] by blast
  have mem: "\<And>x. x \<in> set (map f enumeration_order) \<Longrightarrow> snd x = match_count E txt (fst x)"
    by (auto simp: f_def)
  have w: "w = match_count E txt r" using mem [of "(r, w)"] s by simp
  have fst_f: "map fst (map f enumeration_order) = enumeration_order"
    by (simp add: f_def comp_def)
  have split: "enumeration_order = map fst pre @ r # map fst post"
    using arg_cong [OF s, of "map fst"] fst_f by simp
  have pre: "\<forall>j\<in>set (map fst pre). match_count E txt j < match_count E txt r"
  proof
    fix j assume "j \<in> set (map fst pre)"
    then obtain x where x: "x \<in> set pre" "j = fst x" by auto
    then have "x \<in> set (map f enumeration_order)" using s by simp
    from mem [OF this] lt x w show "match_count E txt j < match_count E txt r" by auto
  qed
  have post: "\<forall>j\<in>set (map fst post). match_count E txt j \<le> match_count E txt r"
  proof
    fix j assume "j \<in> set (map fst post)"
    then obtain x where x: "x \<in> set post" "j = fst x" by auto
    then have "x \<in> set (map f enumeration_order)" using s by simp
    from mem [OF this] le x w show "match_count E txt j \<le> match_count E txt r" by auto
  qed
  have "r \<in> set enumeration_order" using split by (metis in_set_conv_decomp)
  then have ne: "r \<noteq> GENERAL" using enumeration_order_no_GENERAL by auto
  have "\<not> (\<forall>i\<in>set enumeration_order. match_count E txt i = 0)" using True by auto
  then have "\<not> (\<forall>(i, ps)\<in>set intent_patterns. \<forall>p\<in>set ps. \<not> re_search E p (str_lower E txt))"
    unfolding match_count_zero_iff by assumption
  with ne split pre post show ?thesis unfolding r_def [symmetric] by blast
qed

theorem detect_intent_first_maximum_witness:
  "detect_intent engine0 txt_tie = AVAILABILITY
   \<and> match_count engine0 txt_tie AVAILABILITY = 1
   \<and> match_count engine0 txt_tie PURCHASE = 1
   \<and> (\<exists>pre post. enumeration_order = pre @ AVAILABILITY # post
         \<and> (\<forall>j\<in>set pre. match_count engine0 txt_tie j < 1)
         \<and> (\<forall>j\<in>set post. match_count engine0 txt_tie j \<le> 1))
   \<and> detect_intent engine0 [] = GENERAL"
proof -
  have d: "detect_intent engine0 txt_tie = AVAILABILITY" by code_simp
  have c: "match_count engine0 txt_tie AVAILABILITY = 1
     \<and> match_count engine0 txt_tie PURCHASE = 1" by code_simp
  have n: "\<forall>(i, ps)\<in>set intent_patterns. \<forall>p\<in>set ps.
     \<not> re_search engine0 p (str_lower engine0 [])"
    by (simp add: engine0_def WORD_HAST_def WORD_KHARID_def WORD_SALAM_def)
  have g: "detect_intent engine0 [] = GENERAL"
    using n detect_intent_first_maximum [of engine0 "[]"] by blast
  have "detect_intent engine0 txt_tie \<noteq> GENERAL" using d by simp
  with detect_intent_first_maximum [of engine0 txt_tie] d c g show ?thesis by simp
qed

subsection \<open>Price extraction\<close>

lemma price_range_extract_slots:
  "price_range (extract_slots E txt) = price_range_of (prices_of E txt)"
  by (simp add: extract_slots_def Let_def empty_slots_def prices_of_def price_range_of_def
      split: option.splits)

lemma price_range_of_mset:
  assumes "mset ps = mset qs"
  shows "price_range_of ps = price_range_of qs"
proof -
  have l: "length ps = length qs" using assms by (rule mset_eq_length)
  have s: "set ps = set qs" using assms by (rule mset_eq_setD)
  show ?thesis
  proof (cases "length ps = 1")
    case True
    then obtain p where p: "ps = [p]" by (cases ps) auto
    with l obtain q where q: "qs = [q]" by (cases qs) auto
    from s p q have "p = q" by simp
    with p q show ?thesis by simp
  next
    case False
    with l s show ?thesis by (simp add: price_range_of_def)
  qed
qed

text \<open>
  Claim C5.  \<^verbatim>\<open>extract_slots\<close> multiplies the number of a price match by 1,000,000 when
  its unit is the word for million and by 1,000 when it is the word for thousand (a price in
  toman is taken as it is).  When exactly one price value \<open>v\<close> is found the slot
  \<^verbatim>\<open>price_range\<close> is \<open>{min: 0, max: v}\<close>; when two or more are found it is
  \<open>{min: minimum, max: maximum}\<close> of the values; and the slot depends on the values only
  up to their order: any text whose price values are a permutation of these has the same slot.
\<close>

theorem extract_slots_price_range:
  "(\<forall>d. match_price E (d, MILLION) = int_of_digits E d * 1000000
        \<and> match_price E (d, THOUSAND) = int_of_digits E d * 1000
        \<and> match_price E (d, TOMAN) = int_of_digits E d)
   \<and> (\<forall>v. prices_of E txt = [v] \<longrightarrow>
          price_range (extract_slots E txt) = Some [(''min'', 0), (''max'', v)])
   \<and> (2 \<le> length (prices_of E txt) \<longrightarrow>
          price_range (extract_slots E txt) =
            Some [(''min'', Min (set (prices_of E txt))), (''max'', Max (set (prices_of E txt)))])
   \<and> (\<forall>E' txt'. mset (prices_of E' txt') = mset (prices_of E txt) \<longrightarrow>
          price_range (extract_slots E' txt') = price_range (extract_slots E txt))"
proof -
  have units: "\<forall>d. match_price E (d, MILLION) = int_of_digits E d * 1000000
        \<and> match_price E (d, THOUSAND) = int_of_digits E d * 1000
        \<and> match_price E (d, TOMAN) = int_of_digits E d"
    by (simp add: match_price_def MILLION_def THOUSAND_def TOMAN_def)
  have one: "\<forall>v. prices_of E txt = [v] \<longrightarrow>
          price_range (extract_slots E txt) = Some [(''min'', 0), (''max'', v)]"
    by (simp add: price_range_extract_slots price_range_of_def)
  have two: "2 \<le> length (prices_of E txt) \<longrightarrow>
          price_range (extract_slots E txt) =
            Some [(''min'', Min (set (prices_of E txt))), (''max'', Max (set (prices_of E txt)))]"
    by (simp add: price_range_extract_slots price_range_of_def)
  have perm: "\<forall>E' txt'. mset (prices_of E' txt') = mset (prices_of E txt) \<longrightarrow>
          price_range (extract_slots E' txt') = price_range (extract_slots E txt)"
  proof (intro allI impI)
    fix E' txt' assume "mset (prices_of E' txt') = mset (prices_of E txt)"
    then show "price_range (extract_slots E' txt') = price_range (extract_slots E txt)"
      unfolding price_range_extract_slots by (rule price_range_of_mset)
  qed
  from units one two perm show ?thesis by blast
qed

theorem extract_slots_price_range_witness:
  "prices_of engine0 txt_one = [2000000]
   \<and> price_range (extract_slots engine0 txt_one) = Some [(''min'', 0), (''max'', 2000000)]
   \<and> prices_of engine0 txt_two = [500000, 2000000]
   \<and> price_range (extract_slots engine0 txt_two) = Some [(''min'', 500000), (''max'', 2000000)]
   \<and> prices_of engine0 txt_two_rev = [2000000, 500000]
   \<and> price_range (extract_slots engine0 txt_two_rev) = price_range (extract_slots engine0 txt_two)"
proof -
  have p1: "prices_of engine0 txt_one = [2000000]" by code_simp
  have p2: "prices_of engine0 txt_two = [500000, 2000000]" by code_simp
  have p3: "prices_of engine0 txt_two_rev = [2000000, 500000]" by code_simp
  have r1: "price_range (extract_slots engine0 txt_one) = Some [(''min'', 0), (''max'', 2000000)]"
    using extract_slots_price_range [of engine0 txt_one] p1 by simp
  have "2 \<le> length (prices_of engine0 txt_two)" using p2 by simp
  with extract_slots_price_range [of engine0 txt_two]
  have "price_range (extract_slots engine0 txt_two) =
      Some [(''min'', Min (set (prices_of engine0 txt_two))),
            (''max'', Max (set (prices_of engine0 txt_two)))]" by blast
  then have r2: "price_range (extract_slots engine0 txt_two) =
      Some [(''min'', 500000), (''max'', 2000000)]" using p2 by simp
  have "mset (prices_of engine0 txt_two_rev) = mset (prices_of engine0 txt_two)"
    using p2 p3 by simp
  with extract_slots_price_range [of engine0 txt_two]
  have r3: "price_range (extract_slots engine0 txt_two_rev) =
      price_range (extract_slots engine0 txt_two)" by blast
  from p1 p2 p3 r1 r2 r3 show ?thesis by simp
qed

subsection \<open>Confidence\<close>





















section \<open>Verification of the retriever\<close>

subsection \<open>Sorting, truncation and ranks\<close>

lemma set_py_take: "set (py_take k xs) \<subseteq> set xs"
  by (auto simp: py_take_def dest: in_set_takeD)

lemma length_py_take: "0 \<le> k \<Longrightarrow> int (length (py_take k xs)) \<le> k"
  by (simp add: py_take_def)

lemma sorted_sort_by_score: "sorted_wrt (\<lambda>a b. score b \<le> score a) (sort_by_score docs)"
proof -
  have "sorted (map (\<lambda>d. - score d) (sort_by_score docs))"
    unfolding sort_by_score_def by (rule sorted_sort_key)
  then show ?thesis by (simp add: sorted_wrt_map)
qed

lemma sorted_py_take:
  "sorted_wrt P xs \<Longrightarrow> sorted_wrt P (py_take k xs)"
  by (auto simp: py_take_def intro: sorted_wrt_take)

lemma length_assign_ranks: "length (assign_ranks docs) = length docs"
  by (simp add: assign_ranks_def)

lemma nth_assign_ranks:
  "i < length docs \<Longrightarrow> assign_ranks docs ! i = (docs ! i)\<lparr>rank := Some (int i + 1)\<rparr>"
  by (simp add: assign_ranks_def nth_enumerate_eq)

lemma map_score_assign_ranks: "map score (assign_ranks docs) = map score docs"
  by (rule nth_equalityI) (simp_all add: length_assign_ranks nth_assign_ranks)

lemma map_rank_assign_ranks:
  "map rank (assign_ranks docs) = map (\<lambda>i. Some (int i + 1)) [0..<length docs]"
  by (rule nth_equalityI) (simp_all add: length_assign_ranks nth_assign_ranks)

lemma sorted_assign_ranks:
  assumes "sorted_wrt (\<lambda>a b. score b \<le> score a) docs"
  shows "sorted_wrt (\<lambda>a b. score b \<le> score a) (assign_ranks docs)"
proof -
  have "sorted_wrt (\<lambda>a b. b \<le> a) (map score docs)" using assms by (simp add: sorted_wrt_map)
  then have "sorted_wrt (\<lambda>a b. b \<le> a) (map score (assign_ranks docs))"
    by (simp only: map_score_assign_ranks)
  then show ?thesis by (simp add: sorted_wrt_map)
qed

lemma search_loop_returns:
  "\<forall>q\<in>set queries. \<exists>v. embed_text R q = Inr v \<Longrightarrow> \<exists>m. search_loop R k f queries acc = Inr m"
  by (induction queries arbitrary: acc) (auto split: sum.splits)

text \<open>
  Claim C4.  Whatever the index answers to the variations (result lists or failures), as long
  as every variation can be embedded \<^verbatim>\<open>search\<close> returns a list that is sorted by
  descending score and whose ranks are 1, 2, ..., its length, in that order; with a result
  width \<open>N\<close> that is not negative (the argument \<^verbatim>\<open>top_k\<close>, or the configured
  \<^verbatim>\<open>RETRIEVAL_TOP_K\<close> when the argument is absent or 0) the list has at most \<open>N\<close>
  entries.  When an embedding raises, \<^verbatim>\<open>search\<close> raises and returns no list.
\<close>

theorem search_sorted_ranked:
  assumes "\<forall>q\<in>set query_variations. \<exists>v. embed_text R q = Inr v"
  shows "\<exists>docs. search R query_variations top_k filters = Inr docs
     \<and> (0 \<le> effective_top_k R top_k \<longrightarrow> int (length docs) \<le> effective_top_k R top_k)
     \<and> sorted_wrt (\<lambda>a b. score b \<le> score a) docs
     \<and> map rank docs = map (\<lambda>i. Some (int i + 1)) [0..<length docs]"
proof -
  from search_loop_returns [OF assms] obtain m where
    m: "search_loop R (effective_top_k R top_k) filters query_variations [] = Inr m" by blast
  define docs where
    "docs = assign_ranks (py_take (effective_top_k R top_k) (sort_by_score (map snd m)))"
  have s: "search R query_variations top_k filters = Inr docs"
    using m by (simp add: search_def effective_top_k_def docs_def Let_def)
  have l: "0 \<le> effective_top_k R top_k \<longrightarrow> int (length docs) \<le> effective_top_k R top_k"
    by (simp add: docs_def length_assign_ranks length_py_take)
  have o: "sorted_wrt (\<lambda>a b. score b \<le> score a) docs"
    unfolding docs_def by (intro sorted_assign_ranks sorted_py_take sorted_sort_by_score)
  have r: "map rank docs = map (\<lambda>i. Some (int i + 1)) [0..<length docs]"
    unfolding docs_def by (simp add: map_rank_assign_ranks length_assign_ranks)
  from s l o r show ?thesis by blast
qed

theorem search_sorted_ranked_witness:
  "search retriever0 [q1, q2] None None = Inr fused_docs
   \<and> effective_top_k retriever0 None = 10
   \<and> int (length fused_docs) \<le> 10
   \<and> sorted_wrt (\<lambda>a b. score b \<le> score a) fused_docs
   \<and> map rank fused_docs = [Some 1, Some 2]"
proof -
  have e: "\<forall>q\<in>set [q1, q2]. \<exists>v. embed_text retriever0 q = Inr v"
    by (simp add: embed_text_def retriever0_def)
  have k: "effective_top_k retriever0 None = 10"
    by (simp add: effective_top_k_def retriever0_def default_settings_def py_or_def)
  have s: "search retriever0 [q1, q2] None None = Inr fused_docs" by code_simp
  from search_sorted_ranked [OF e, of None None] s k
  have "int (length fused_docs) \<le> 10 \<and> sorted_wrt (\<lambda>a b. score b \<le> score a) fused_docs
     \<and> map rank fused_docs = map (\<lambda>i. Some (int i + 1)) [0..<length fused_docs]" by simp
  moreover have "map (\<lambda>i. Some (int i + 1)) [0..<length fused_docs] = [Some 1, Some 2]"
    by (simp add: fused_docs_def upt_rec)
  ultimately show ?thesis using s k by simp
qed

subsection \<open>Fusion by product id\<close>

lemma fused_empty: "fused [] []"
  by (simp add: fused_def)

lemma fused_step:
  assumes "fused m H" and "well_formed r"
  shows "\<exists>p. Product_of (sp_payload r) = Inr p
     \<and> fused (if (case map_of m (sp_id r) of None \<Rightarrow> True | Some d \<Rightarrow> score d < sp_score r)
               then AList.update (sp_id r) \<lparr>product = p, score = sp_score r, rank = None\<rparr> m
               else m) (H @ [r])"
proof -
  from assms(2) obtain p where p: "sp_payload r = Payload p" "p_id p = sp_id r"
    by (auto simp: well_formed_def split: payload.splits)
  have P: "Product_of (sp_payload r) = Inr p" using p by (simp add: Product_of_def)
  have d: "distinct (map fst m)" using assms(1) by (simp add: fused_def)
  have inv: "\<And>i. case map_of m i of
              None \<Rightarrow> i \<notin> sp_id ` set H
            | Some d \<Rightarrow> p_id (product d) = i
                 \<and> (\<exists>h\<in>set H. sp_id h = i \<and> sp_score h = score d)
                 \<and> (\<forall>h\<in>set H. sp_id h = i \<longrightarrow> sp_score h \<le> score d)"
    using assms(1) by (simp add: fused_def)
  show ?thesis
  proof (cases "map_of m (sp_id r)")
    case None
    have "fused (AList.update (sp_id r) \<lparr>product = p, score = sp_score r, rank = None\<rparr> m) (H @ [r])"
      unfolding fused_def
    proof (intro conjI allI)
      show "distinct (map fst (AList.update (sp_id r) \<lparr>product = p, score = sp_score r, rank = None\<rparr> m))"
        using d by (simp add: distinct_update)
    next
      fix i
      show "case map_of (AList.update (sp_id r) \<lparr>product = p, score = sp_score r, rank = None\<rparr> m) i of
              None \<Rightarrow> i \<notin> sp_id ` set (H @ [r])
            | Some d \<Rightarrow> p_id (product d) = i
                 \<and> (\<exists>h\<in>set (H @ [r]). sp_id h = i \<and> sp_score h = score d)
                 \<and> (\<forall>h\<in>set (H @ [r]). sp_id h = i \<longrightarrow> sp_score h \<le> score d)"
        using inv [of i] inv [of "sp_id r"] None p
        by (cases "i = sp_id r") (force simp: update_conv' image_iff split: option.splits)+
    qed
    with None P show ?thesis by simp
  next
    case (Some d0)
    show ?thesis
    proof (cases "score d0 < sp_score r")
      case True
      have "fused (AList.update (sp_id r) \<lparr>product = p, score = sp_score r, rank = None\<rparr> m) (H @ [r])"
        unfolding fused_def
      proof (intro conjI allI)
        show "distinct (map fst (AList.update (sp_id r) \<lparr>product = p, score = sp_score r, rank = None\<rparr> m))"
          using d by (simp add: distinct_update)
      next
        fix i
        show "case map_of (AList.update (sp_id r) \<lparr>product = p, score = sp_score r, rank = None\<rparr> m) i of
                None \<Rightarrow> i \<notin> sp_id ` set (H @ [r])
              | Some d \<Rightarrow> p_id (product d) = i
                   \<and> (\<exists>h\<in>set (H @ [r]). sp_id h = i \<and> sp_score h = score d)
                   \<and> (\<forall>h\<in>set (H @ [r]). sp_id h = i \<longrightarrow> sp_score h \<le> score d)"
          using inv [of i] inv [of "sp_id r"] Some True p
          by (cases "i = sp_id r") (fastforce simp: update_conv' split: option.splits)+
      qed
      with Some True P show ?thesis by simp
    next
      case False
      have "fused m (H @ [r])"
        unfolding fused_def
      proof (intro conjI allI)
        show "distinct (map fst m)" by (rule d)
      next
        fix i
        show "case map_of m i of
                None \<Rightarrow> i \<notin> sp_id ` set (H @ [r])
              | Some d \<Rightarrow> p_id (product d) = i
                   \<and> (\<exists>h\<in>set (H @ [r]). sp_id h = i \<and> sp_score h = score d)
                   \<and> (\<forall>h\<in>set (H @ [r]). sp_id h = i \<longrightarrow> sp_score h \<le> score d)"
          using inv [of i] inv [of "sp_id r"] Some False
          by (cases "i = sp_id r") (fastforce split: option.splits)+
      qed
      with Some False P show ?thesis by simp
    qed
  qed
qed

lemma fused_merge_results:
  "fused m H \<Longrightarrow> \<forall>r\<in>set rs. well_formed r \<Longrightarrow> fused (merge_results m rs) (H @ rs)"
proof (induction rs arbitrary: m H)
  case Nil
  then show ?case by simp
next
  case (Cons r rs)
  from Cons.prems have wf: "well_formed r" and wfs: "\<forall>r\<in>set rs. well_formed r" by simp_all
  from fused_step [OF Cons.prems(1) wf] obtain p where
    P: "Product_of (sp_payload r) = Inr p"
    and f: "fused (if (case map_of m (sp_id r) of None \<Rightarrow> True | Some d \<Rightarrow> score d < sp_score r)
               then AList.update (sp_id r) \<lparr>product = p, score = sp_score r, rank = None\<rparr> m
               else m) (H @ [r])" by blast
  from Cons.IH [OF f wfs] P show ?case
    by (simp split: if_splits)
qed

lemma variation_results_Inr:
  "embed_text R q = Inr v \<Longrightarrow> qdrant_search R v k (build_filter f) = Inr rs
     \<Longrightarrow> variation_results R k f q = rs"
  by (simp add: variation_results_def)

lemma variation_results_Inl:
  "embed_text R q = Inr v \<Longrightarrow> qdrant_search R v k (build_filter f) = Inl e
     \<Longrightarrow> variation_results R k f q = []"
  by (simp add: variation_results_def)

lemma fused_search_loop:
  "fused m H \<Longrightarrow> \<forall>r\<in>set (observed R k f qs). well_formed r
     \<Longrightarrow> search_loop R k f qs m = Inr m' \<Longrightarrow> fused m' (H @ observed R k f qs)"
proof (induction qs arbitrary: m H)
  case Nil
  then show ?case by (simp add: observed_def)
next
  case (Cons q qs)
  from Cons.prems(3) obtain v where v: "embed_text R q = Inr v"
    by (auto split: sum.splits)
  have obs: "observed R k f (q # qs) = variation_results R k f q @ observed R k f qs"
    by (simp add: observed_def)
  show ?case
  proof (cases "qdrant_search R v k (build_filter f)")
    case (Inl e)
    with v have vr: "variation_results R k f q = []" by (rule variation_results_Inl)
    from Cons.prems(3) v Inl have "search_loop R k f qs m = Inr m'" by simp
    from Cons.IH [OF Cons.prems(1) _ this] Cons.prems(2) obs vr show ?thesis by simp
  next
    case (Inr rs)
    with v have vr: "variation_results R k f q = rs" by (rule variation_results_Inr)
    from Cons.prems(3) v Inr have l: "search_loop R k f qs (merge_results m rs) = Inr m'" by simp
    have "\<forall>r\<in>set rs. well_formed r" using Cons.prems(2) obs vr by simp
    from fused_merge_results [OF Cons.prems(1) this] have "fused (merge_results m rs) (H @ rs)" .
    from Cons.IH [OF this _ l] Cons.prems(2) obs vr show ?thesis by simp
  qed
qed

lemma fused_entry:
  assumes "fused m H" and "(i, d) \<in> set m"
  shows "p_id (product d) = i \<and> (\<exists>h\<in>set H. sp_id h = i \<and> sp_score h = score d)
     \<and> (\<forall>h\<in>set H. sp_id h = i \<longrightarrow> sp_score h \<le> score d)"
proof -
  have "distinct (map fst m)" using assms(1) by (simp add: fused_def)
  with assms(2) have "map_of m i = Some d" by simp
  moreover have "case map_of m i of
              None \<Rightarrow> i \<notin> sp_id ` set H
            | Some d \<Rightarrow> p_id (product d) = i
                 \<and> (\<exists>h\<in>set H. sp_id h = i \<and> sp_score h = score d)
                 \<and> (\<forall>h\<in>set H. sp_id h = i \<longrightarrow> sp_score h \<le> score d)"
    using assms(1) by (simp add: fused_def)
  ultimately show ?thesis by simp
qed

lemma fused_keys: "fused m H \<Longrightarrow> fst ` set m = sp_id ` set H"
proof (rule set_eqI)
  fix i assume f: "fused m H"
  have c: "case map_of m i of
              None \<Rightarrow> i \<notin> sp_id ` set H
            | Some d \<Rightarrow> p_id (product d) = i
                 \<and> (\<exists>h\<in>set H. sp_id h = i \<and> sp_score h = score d)
                 \<and> (\<forall>h\<in>set H. sp_id h = i \<longrightarrow> sp_score h \<le> score d)"
    using f by (simp add: fused_def)
  show "i \<in> fst ` set m \<longleftrightarrow> i \<in> sp_id ` set H"
  proof (cases "map_of m i")
    case None
    then have "i \<notin> fst ` set m" by (simp add: map_of_eq_None_iff)
    with c None show ?thesis by simp
  next
    case (Some d)
    then have "i \<in> fst ` set m" by (metis map_of_eq_None_iff option.distinct(1))
    moreover have "i \<in> sp_id ` set H" using c Some by (force simp: image_iff)
    ultimately show ?thesis by simp
  qed
qed

lemma fused_ids: "fused m H \<Longrightarrow> map (\<lambda>d. p_id (product d)) (map snd m) = map fst m"
proof -
  assume f: "fused m H"
  have "\<forall>x\<in>set m. p_id (product (snd x)) = fst x"
  proof
    fix x assume "x \<in> set m"
    then have "(fst x, snd x) \<in> set m" by simp
    from fused_entry [OF f this] show "p_id (product (snd x)) = fst x" by simp
  qed
  then show ?thesis by simp
qed

lemma distinct_map_sort_key: "distinct (map f xs) \<Longrightarrow> distinct (map f (sort_key g xs))"
  by (simp add: distinct_map)

lemma distinct_map_py_take: "distinct (map f xs) \<Longrightarrow> distinct (map f (py_take k xs))"
  by (auto simp: py_take_def take_map [symmetric])

lemma py_take_all: "int (length xs) \<le> k \<Longrightarrow> py_take k xs = xs"
  by (simp add: py_take_def)

lemma assign_ranks_elem:
  assumes "d \<in> set (assign_ranks docs)"
  shows "\<exists>d0\<in>set docs. product d = product d0 \<and> score d = score d0"
proof -
  from assms obtain i where i: "i < length docs" and di: "d = assign_ranks docs ! i"
    by (metis in_set_conv_nth length_assign_ranks)
  have "d = (docs ! i)\<lparr>rank := Some (int i + 1)\<rparr>"
    unfolding di by (rule nth_assign_ranks [OF i])
  then have "product d = product (docs ! i) \<and> score d = score (docs ! i)" by simp
  moreover have "docs ! i \<in> set docs" using i by simp
  ultimately show ?thesis by blast
qed

lemma map_ids_assign_ranks:
  "map (\<lambda>d. p_id (product d)) (assign_ranks docs) = map (\<lambda>d. p_id (product d)) docs"
  by (rule nth_equalityI) (simp_all add: length_assign_ranks nth_assign_ranks)

lemma assign_ranks_image:
  "(\<lambda>d. p_id (product d)) ` set (assign_ranks docs) = (\<lambda>d. p_id (product d)) ` set docs"
  using arg_cong [OF map_ids_assign_ranks [of docs], of set] by (simp only: set_map)

text \<open>
  Claim C1, as amended.  For every sequence of per-variation result lists in which every
  result carries a payload that validates to a product whose id is the point id (the way
  \<^verbatim>\<open>add_product\<close> stores products), the list returned by \<^verbatim>\<open>search\<close> has at most one
  entry for every product id, and the score of an entry is the maximum of the scores observed
  for its product id over the results of all variations.  The list is returned whenever every
  variation can be embedded (an embedding that raises ends \<^verbatim>\<open>search\<close> with the exception).
  When the result width does not truncate, every observed product id has its entry.  In the
  example that follows the theorem, product P is found at 0.7 by one variation and at 0.9 by
  another, and is returned once, at 0.9.
\<close>

theorem search_fuses_by_max:
  assumes "\<forall>q\<in>set query_variations. \<exists>v. embed_text R q = Inr v"
    and "\<forall>r\<in>set (observed R (effective_top_k R top_k) filters query_variations). well_formed r"
  shows "\<exists>docs. search R query_variations top_k filters = Inr docs
     \<and> distinct (map (\<lambda>d. p_id (product d)) docs)
     \<and> (\<forall>d\<in>set docs. score d =
           Max (sp_score ` {r \<in> set (observed R (effective_top_k R top_k) filters query_variations).
                             sp_id r = p_id (product d)}))
     \<and> (int (card (sp_id ` set (observed R (effective_top_k R top_k) filters query_variations)))
            \<le> effective_top_k R top_k \<longrightarrow>
          (\<lambda>d. p_id (product d)) ` set docs =
            sp_id ` set (observed R (effective_top_k R top_k) filters query_variations))"
proof -
  define N where "N = effective_top_k R top_k"
  define H where "H = observed R N filters query_variations"
  from search_loop_returns [OF assms(1)] obtain m where
    m: "search_loop R N filters query_variations [] = Inr m" by blast
  have f: "fused m H"
    using fused_search_loop [OF fused_empty _ m] assms(2) unfolding N_def H_def by simp
  define docs where "docs = assign_ranks (py_take N (sort_by_score (map snd m)))"
  have s: "search R query_variations top_k filters = Inr docs"
    using m by (simp add: search_def effective_top_k_def docs_def N_def Let_def)
  have dm: "distinct (map (\<lambda>d. p_id (product d)) (map snd m))"
    unfolding fused_ids [OF f] using f by (simp add: fused_def)
  have d: "distinct (map (\<lambda>d. p_id (product d)) docs)"
  proof -
    have "distinct (map (\<lambda>d. p_id (product d)) (py_take N (sort_by_score (map snd m))))"
      unfolding sort_by_score_def by (intro distinct_map_py_take distinct_map_sort_key dm)
    moreover have "map (\<lambda>d. p_id (product d)) docs =
        map (\<lambda>d. p_id (product d)) (py_take N (sort_by_score (map snd m)))"
      unfolding docs_def by (rule map_ids_assign_ranks)
    ultimately show ?thesis by simp
  qed
  have mx: "\<forall>d\<in>set docs. score d = Max (sp_score ` {r \<in> set H. sp_id r = p_id (product d)})"
  proof
    fix d assume "d \<in> set docs"
    then have "d \<in> set (assign_ranks (py_take N (sort_by_score (map snd m))))"
      by (simp only: docs_def)
    from assign_ranks_elem [OF this] obtain d0 where
      d0: "d0 \<in> set (py_take N (sort_by_score (map snd m)))"
      and pd: "product d = product d0" and sd: "score d = score d0" by blast
    from d0 set_py_take [of N "sort_by_score (map snd m)"]
    have "d0 \<in> set (sort_by_score (map snd m))" by (rule subsetD [rotated])
    then have "d0 \<in> snd ` set m" by (simp add: sort_by_score_def)
    then obtain x where x: "x \<in> set m" "d0 = snd x" by (rule imageE)
    define i where "i = fst x"
    have "(i, d0) \<in> set m" using x by (simp add: i_def)
    from fused_entry [OF f this] have
      e1: "p_id (product d0) = i"
      and e2: "\<exists>h\<in>set H. sp_id h = i \<and> sp_score h = score d0"
      and e3: "\<forall>h\<in>set H. sp_id h = i \<longrightarrow> sp_score h \<le> score d0" by simp_all
    have "Max (sp_score ` {r \<in> set H. sp_id r = i}) = score d0"
    proof (rule Max_eqI)
      show "finite (sp_score ` {r \<in> set H. sp_id r = i})" by simp
    next
      fix y assume "y \<in> sp_score ` {r \<in> set H. sp_id r = i}"
      then obtain h where "h \<in> set H" "sp_id h = i" "y = sp_score h" by auto
      with e3 show "y \<le> score d0" by simp
    next
      from e2 obtain h where h: "h \<in> set H" "sp_id h = i" "sp_score h = score d0" by blast
      then have "h \<in> {r \<in> set H. sp_id r = i}" by simp
      then have "sp_score h \<in> sp_score ` {r \<in> set H. sp_id r = i}" by (rule imageI)
      with h(3) show "score d0 \<in> sp_score ` {r \<in> set H. sp_id r = i}" by simp
    qed
    then show "score d = Max (sp_score ` {r \<in> set H. sp_id r = p_id (product d)})"
      unfolding pd sd e1 by simp
  qed
  have al: "int (card (sp_id ` set H)) \<le> N \<longrightarrow> (\<lambda>d. p_id (product d)) ` set docs = sp_id ` set H"
  proof
    assume c: "int (card (sp_id ` set H)) \<le> N"
    have "distinct (map fst m)" using f by (simp add: fused_def)
    then have "card (set (map fst m)) = length (map fst m)" by (rule distinct_card)
    then have "length m = card (fst ` set m)" by simp
    with c have "int (length (sort_by_score (map snd m))) \<le> N"
      by (simp add: sort_by_score_def fused_keys [OF f])
    then have "py_take N (sort_by_score (map snd m)) = sort_by_score (map snd m)"
      by (rule py_take_all)
    then have "(\<lambda>d. p_id (product d)) ` set docs = (\<lambda>d. p_id (product d)) ` set (map snd m)"
      unfolding docs_def by (simp add: assign_ranks_image sort_by_score_def)
    also have "\<dots> = set (map (\<lambda>d. p_id (product d)) (map snd m))" by (simp only: set_map)
    also have "\<dots> = fst ` set m" using fused_ids [OF f] by simp
    also have "\<dots> = sp_id ` set H" by (rule fused_keys [OF f])
    finally show "(\<lambda>d. p_id (product d)) ` set docs = sp_id ` set H" .
  qed
  have "search R query_variations top_k filters = Inr docs
     \<and> distinct (map (\<lambda>d. p_id (product d)) docs)
     \<and> (\<forall>d\<in>set docs. score d = Max (sp_score ` {r \<in> set H. sp_id r = p_id (product d)}))
     \<and> (int (card (sp_id ` set H)) \<le> N \<longrightarrow> (\<lambda>d. p_id (product d)) ` set docs = sp_id ` set H)"
    using s d mx al by (intro conjI)
  then show ?thesis unfolding N_def H_def by (rule exI)
qed

theorem search_fuses_by_max_witness:
  "observed retriever0 10 None [q1, q2] =
     [point product_P 0.7, point product_Q 0.5, point product_P 0.9]
   \<and> search retriever0 [q1, q2] None None = Inr fused_docs
   \<and> map (\<lambda>d. (p_id (product d), score d)) fused_docs = [([80], 0.9), ([81], 0.5)]
   \<and> distinct (map (\<lambda>d. p_id (product d)) fused_docs)
   \<and> Max (sp_score ` {r \<in> set (observed retriever0 10 None [q1, q2]). sp_id r = [80]}) = 0.9"
proof -
  have e1: "embed_text retriever0 q1 = Inr [8]"
    by (simp add: embed_text_def retriever0_def q1_def QUERY_PREFIX_def)
  have e2: "embed_text retriever0 q2 = Inr [9]"
    by (simp add: embed_text_def retriever0_def q2_def QUERY_PREFIX_def)
  have e: "\<forall>q\<in>set [q1, q2]. \<exists>v. embed_text retriever0 q = Inr v" using e1 e2 by simp
  have k: "effective_top_k retriever0 None = 10"
    by (simp add: effective_top_k_def retriever0_def default_settings_def py_or_def)
  have o: "observed retriever0 10 None [q1, q2] =
     [point product_P 0.7, point product_Q 0.5, point product_P 0.9]"
    by (simp add: observed_def variation_results_def e1 e2) (simp add: retriever0_def)
  have w: "\<forall>r\<in>set (observed retriever0 (effective_top_k retriever0 None) None [q1, q2]).
     well_formed r"
    unfolding k o by (simp add: well_formed_def point_def)
  have s: "search retriever0 [q1, q2] None None = Inr fused_docs" by code_simp
  have v: "map (\<lambda>d. (p_id (product d), score d)) fused_docs = [([80], 0.9), ([81], 0.5)]"
    by (simp add: fused_docs_def product_P_def product_Q_def)
  from search_fuses_by_max [OF e w] s k
  have d: "distinct (map (\<lambda>d. p_id (product d)) fused_docs)"
    and m: "\<forall>d\<in>set fused_docs. score d =
      Max (sp_score ` {r \<in> set (observed retriever0 10 None [q1, q2]). sp_id r = p_id (product d)})"
    by simp_all
  have "\<lparr>product = product_P, score = 0.9, rank = Some 1\<rparr> \<in> set fused_docs"
    by (simp add: fused_docs_def)
  from m [rule_format, OF this]
  have "Max (sp_score ` {r \<in> set (observed retriever0 10 None [q1, q2]). sp_id r = [80]}) = 0.9"
    by (simp add: product_P_def)
  with o s v d show ?thesis by simp
qed

text \<open>
  Claim C1 as stated, for every sequence of result lists, fails.  A payload that does not
  validate raises inside the \<^verbatim>\<open>try\<close> block and the rest of that variation's list is
  skipped: with X (no valid payload) at 0.95 and P at 0.9 for the first variation and P at 0.7
  for the second, the fused set holds P at 0.7 although 0.9 was observed for P.  And a payload
  stored under a second point id gives two entries for one product id.
\<close>

theorem search_fusion_counterexample:
  "observed retriever_bad 10 None [q1, q2] =
     [point_X, point product_P 0.9, point product_P 0.7]
   \<and> search retriever_bad [q1, q2] None None =
       Inr [\<lparr>product = product_P, score = 0.7, rank = Some 1\<rparr>]
   \<and> Max (sp_score ` {r \<in> set (observed retriever_bad 10 None [q1, q2]). sp_id r = [80]}) = 0.9
   \<and> search retriever_alias [q1] None None =
       Inr [\<lparr>product = product_P, score = 0.9, rank = Some 1\<rparr>,
            \<lparr>product = product_P, score = 0.7, rank = Some 2\<rparr>]
   \<and> \<not> distinct (map (\<lambda>d. p_id (product d))
         [\<lparr>product = product_P, score = 0.9, rank = Some 1\<rparr>,
          \<lparr>product = product_P, score = 0.7, rank = Some 2\<rparr>])"
proof -
  have e1: "embed_text retriever_bad q1 = Inr [8]"
    by (simp add: embed_text_def retriever_bad_def retriever0_def q1_def QUERY_PREFIX_def)
  have e2: "embed_text retriever_bad q2 = Inr [9]"
    by (simp add: embed_text_def retriever_bad_def retriever0_def q2_def QUERY_PREFIX_def)
  have o: "observed retriever_bad 10 None [q1, q2] =
     [point_X, point product_P 0.9, point product_P 0.7]"
    by (simp add: observed_def variation_results_def e1 e2) (simp add: retriever_bad_def)
  have s: "search retriever_bad [q1, q2] None None =
       Inr [\<lparr>product = product_P, score = 0.7, rank = Some 1\<rparr>]"
    by code_simp
  have m: "Max (sp_score ` {r \<in> set (observed retriever_bad 10 None [q1, q2]). sp_id r = [80]})
      = 0.9"
  proof -
    have "{r \<in> set [point_X, point product_P 0.9, point product_P 0.7]. sp_id r = [80]}
        = {point product_P 0.9, point product_P 0.7}"
      by (auto simp: point_X_def point_def product_P_def)
    then show ?thesis unfolding o by (simp add: point_def)
  qed
  have a: "search retriever_alias [q1] None None =
       Inr [\<lparr>product = product_P, score = 0.9, rank = Some 1\<rparr>,
            \<lparr>product = product_P, score = 0.7, rank = Some 2\<rparr>]"
    by code_simp
  have d: "\<not> distinct (map (\<lambda>d. p_id (product d))
         [\<lparr>product = product_P, score = 0.9, rank = Some 1\<rparr>,
          \<lparr>product = product_P, score = 0.7, rank = Some 2\<rparr>])"
    by simp
  from o s m a d show ?thesis by (intro conjI)
qed

subsection \<open>Query expansion\<close>

lemma parse_variations_Cons: "\<exists>rest. parse_variations E query content = query # rest"
  by (simp add: parse_variations_def)

lemma py_take_Cons: "1 \<le> k \<Longrightarrow> \<exists>rest. py_take k (x # xs) = x # rest"
proof -
  assume k: "1 \<le> k"
  then have "nat k = Suc (nat (k - 1))" by arith
  then have "take (nat k) (x # xs) = x # take (nat (k - 1)) xs" by simp
  with k show ?thesis by (simp add: py_take_def)
qed

lemma generate_query_variations_cases:
  "generate_query_variations R query num_variations = [query]
   \<or> (\<exists>prompt content.
         prompt_format R query (effective_variations R num_variations - 1) = Inr prompt
         \<and> llm_invoke R prompt = Inr content
         \<and> generate_query_variations R query num_variations =
             py_take (effective_variations R num_variations)
               (parse_variations (env_engine R) query content))"
proof (cases "prompt_format R query (effective_variations R num_variations - 1)")
  case (Inl e)
  then show ?thesis
    by (simp add: generate_query_variations_def effective_variations_def Let_def)
next
  case (Inr prompt)
  note p = this
  show ?thesis
  proof (cases "llm_invoke R prompt")
    case (Inl e)
    with p show ?thesis
      by (simp add: generate_query_variations_def effective_variations_def Let_def)
  next
    case (Inr content)
    with p show ?thesis
      by (simp add: generate_query_variations_def effective_variations_def Let_def)
  qed
qed

text \<open>
  Claim C6.  For every query and every variation count \<open>k \<ge> 1\<close>,
  \<^verbatim>\<open>generate_query_variations\<close> returns a list whose first element is the original query
  and whose length is at most \<open>k\<close>; and whenever the call of the language model raises, it
  returns exactly the one-element list of the original query.  The count \<open>k\<close> is the one the
  function works with: the argument \<^verbatim>\<open>num_variations\<close> when it is given (and at least
  1, then the two agree), the configured \<^verbatim>\<open>QUERY_VARIATIONS\<close> when it is absent.  The
  fallback is also returned when the prompt cannot be formatted.
\<close>

theorem generate_query_variations_bounded:
  "(1 \<le> effective_variations R num_variations \<longrightarrow>
      (\<exists>rest. generate_query_variations R query num_variations = query # rest)
      \<and> int (length (generate_query_variations R query num_variations))
            \<le> effective_variations R num_variations)
   \<and> (\<forall>k. 1 \<le> k \<longrightarrow> effective_variations R (Some k) = k)
   \<and> effective_variations R None = QUERY_VARIATIONS (env_settings R)
   \<and> (\<forall>prompt e.
         prompt_format R query (effective_variations R num_variations - 1) = Inr prompt
         \<and> llm_invoke R prompt = Inl e
         \<longrightarrow> generate_query_variations R query num_variations = [query])
   \<and> (\<forall>e. prompt_format R query (effective_variations R num_variations - 1) = Inl e
         \<longrightarrow> generate_query_variations R query num_variations = [query])"
proof (intro conjI impI allI)
  assume k: "1 \<le> effective_variations R num_variations"
  from generate_query_variations_cases [of R query num_variations]
  show "\<exists>rest. generate_query_variations R query num_variations = query # rest"
  proof
    assume "generate_query_variations R query num_variations = [query]"
    then show ?thesis by simp
  next
    assume "\<exists>prompt content.
         prompt_format R query (effective_variations R num_variations - 1) = Inr prompt
         \<and> llm_invoke R prompt = Inr content
         \<and> generate_query_variations R query num_variations =
             py_take (effective_variations R num_variations)
               (parse_variations (env_engine R) query content)"
    then obtain content where g: "generate_query_variations R query num_variations =
             py_take (effective_variations R num_variations)
               (parse_variations (env_engine R) query content)" by blast
    obtain rest where "parse_variations (env_engine R) query content = query # rest"
      using parse_variations_Cons by blast
    with py_take_Cons [OF k, of query rest] g show ?thesis by simp
  qed
next
  assume k: "1 \<le> effective_variations R num_variations"
  then have k0: "0 \<le> effective_variations R num_variations" by simp
  from generate_query_variations_cases [of R query num_variations]
  show "int (length (generate_query_variations R query num_variations))
            \<le> effective_variations R num_variations"
  proof
    assume "generate_query_variations R query num_variations = [query]"
    with k show ?thesis by simp
  next
    assume "\<exists>prompt content.
         prompt_format R query (effective_variations R num_variations - 1) = Inr prompt
         \<and> llm_invoke R prompt = Inr content
         \<and> generate_query_variations R query num_variations =
             py_take (effective_variations R num_variations)
               (parse_variations (env_engine R) query content)"
    then obtain content where g: "generate_query_variations R query num_variations =
             py_take (effective_variations R num_variations)
               (parse_variations (env_engine R) query content)" by blast
    show ?thesis unfolding g by (rule length_py_take [OF k0])
  qed
next
  fix k :: int assume "1 \<le> k"
  then show "effective_variations R (Some k) = k"
    by (simp add: effective_variations_def py_or_def)
next
  show "effective_variations R None = QUERY_VARIATIONS (env_settings R)"
    by (simp add: effective_variations_def py_or_def)
next
  fix prompt e
  assume a: "prompt_format R query (effective_variations R num_variations - 1) = Inr prompt
         \<and> llm_invoke R prompt = Inl e"
  then show "generate_query_variations R query num_variations = [query]"
    by (simp add: generate_query_variations_def effective_variations_def Let_def)
next
  fix e
  assume "prompt_format R query (effective_variations R num_variations - 1) = Inl e"
  then show "generate_query_variations R query num_variations = [query]"
    by (simp add: generate_query_variations_def effective_variations_def Let_def)
qed

theorem generate_query_variations_bounded_witness:
  "effective_variations retriever0 None = 3
   \<and> generate_query_variations retriever0 q1 None = [q1, [98, 98], [99, 99, 99]]
   \<and> effective_variations retriever0 (Some 2) = 2
   \<and> generate_query_variations retriever0 q1 (Some 2) = [q1, [98, 98]]
   \<and> int (length (generate_query_variations retriever0 q1 (Some 2))) \<le> 2
   \<and> effective_variations retriever0 (Some 1) = 1
   \<and> generate_query_variations retriever0 q1 (Some 1) = [q1]
   \<and> generate_query_variations retriever_down q1 None = [q1]
   \<and> generate_query_variations retriever_down q1 (Some 2) = [q1]
   \<and> generate_query_variations retriever_noprompt q1 None = [q1]"
proof -
  have k3: "effective_variations retriever0 None = 3"
    using generate_query_variations_bounded [of retriever0 None q1]
    by (simp add: retriever0_def default_settings_def)
  have "(1::int) \<le> 2" by simp
  with generate_query_variations_bounded [of retriever0 None q1]
  have k2: "effective_variations retriever0 (Some 2) = 2" by blast
  have "(1::int) \<le> 1" by simp
  with generate_query_variations_bounded [of retriever0 None q1]
  have k1: "effective_variations retriever0 (Some 1) = 1" by blast
  have g3: "generate_query_variations retriever0 q1 None = [q1, [98, 98], [99, 99, 99]]"
    by code_simp
  have g2: "generate_query_variations retriever0 q1 (Some 2) = [q1, [98, 98]]"
    by code_simp
  have "1 \<le> effective_variations retriever0 (Some 2)" using k2 by simp
  with generate_query_variations_bounded [of retriever0 "Some 2" q1]
  have l2: "int (length (generate_query_variations retriever0 q1 (Some 2))) \<le> 2"
    using k2 by simp
  have "1 \<le> effective_variations retriever0 (Some 1)" using k1 by simp
  with generate_query_variations_bounded [of retriever0 "Some 1" q1]
  have "(\<exists>rest. generate_query_variations retriever0 q1 (Some 1) = q1 # rest)
      \<and> int (length (generate_query_variations retriever0 q1 (Some 1))) \<le> 1"
    using k1 by simp
  then have g1: "generate_query_variations retriever0 q1 (Some 1) = [q1]" by auto
  have "prompt_format retriever_down q1 (effective_variations retriever_down None - 1) = Inr q1
      \<and> llm_invoke retriever_down q1 = Inl ExternalError"
    by (simp add: retriever_down_def retriever0_def)
  with generate_query_variations_bounded [of retriever_down None q1]
  have gd: "generate_query_variations retriever_down q1 None = [q1]" by blast
  have "prompt_format retriever_down q1 (effective_variations retriever_down (Some 2) - 1) = Inr q1
      \<and> llm_invoke retriever_down q1 = Inl ExternalError"
    by (simp add: retriever_down_def retriever0_def)
  with generate_query_variations_bounded [of retriever_down "Some 2" q1]
  have gd2: "generate_query_variations retriever_down q1 (Some 2) = [q1]" by blast
  have "prompt_format retriever_noprompt q1 (effective_variations retriever_noprompt None - 1)
      = Inl KeyError"
    by (simp add: retriever_noprompt_def)
  with generate_query_variations_bounded [of retriever_noprompt None q1]
  have gn: "generate_query_variations retriever_noprompt q1 None = [q1]" by blast
  from k3 g3 k2 g2 l2 k1 g1 gd gd2 gn show ?thesis by (intro conjI)
qed

section \<open>Verification of the reranker\<close>

lemma write_scores_map:
  "write_scores ds (map g ds) h =
     (Inr (), (\<lambda>r. if r \<in> set ds then (h r)\<lparr>score := g r\<rparr> else h r))"
proof (induction ds arbitrary: h)
  case Nil
  show ?case by simp
next
  case (Cons d ds)
  show ?case by (simp add: Cons.IH) (auto simp: fun_eq_iff)
qed

lemma write_ranks_frame: "r \<notin> set ds \<Longrightarrow> write_ranks i ds h r = h r"
  by (induction ds arbitrary: i h) auto

lemma write_ranks_fields:
  "product (write_ranks i ds h r) = product (h r) \<and> score (write_ranks i ds h r) = score (h r)"
  by (induction ds arbitrary: i h) auto

lemma write_ranks_cong:
  "\<forall>r. product (h r) = product (h' r) \<and> score (h r) = score (h' r)
     \<and> RetrievedDocument.more (h r) = RetrievedDocument.more (h' r) \<Longrightarrow>
   \<forall>r. r \<notin> set ds \<longrightarrow> h r = h' r \<Longrightarrow>
   write_ranks i ds h = write_ranks i ds h'"
proof (induction ds arbitrary: i h h')
  case Nil
  then show ?case by (simp add: fun_eq_iff)
next
  case (Cons d ds)
  show ?case
    unfolding write_ranks.simps
  proof (rule Cons.IH)
    show "\<forall>r. product ((h(d := (h d)\<lparr>rank := Some (int i + 1)\<rparr>)) r) =
        product ((h'(d := (h' d)\<lparr>rank := Some (int i + 1)\<rparr>)) r)
      \<and> score ((h(d := (h d)\<lparr>rank := Some (int i + 1)\<rparr>)) r) =
        score ((h'(d := (h' d)\<lparr>rank := Some (int i + 1)\<rparr>)) r)
      \<and> RetrievedDocument.more ((h(d := (h d)\<lparr>rank := Some (int i + 1)\<rparr>)) r) =
        RetrievedDocument.more ((h'(d := (h' d)\<lparr>rank := Some (int i + 1)\<rparr>)) r)"
      using Cons.prems(1) by simp
    show "\<forall>r. r \<notin> set ds \<longrightarrow> (h(d := (h d)\<lparr>rank := Some (int i + 1)\<rparr>)) r =
        (h'(d := (h' d)\<lparr>rank := Some (int i + 1)\<rparr>)) r"
      using Cons.prems by (auto intro: RetrievedDocument.equality)
  qed
qed

lemma write_ranks_idem: "write_ranks i ds (write_ranks i ds h) = write_ranks i ds h"
proof (rule write_ranks_cong)
  show "\<forall>r. product (write_ranks i ds h r) = product (h r)
      \<and> score (write_ranks i ds h r) = score (h r)
      \<and> RetrievedDocument.more (write_ranks i ds h r) = RetrievedDocument.more (h r)"
    by (simp add: write_ranks_fields)
  show "\<forall>r. r \<notin> set ds \<longrightarrow> write_ranks i ds h r = h r"
    by (simp add: write_ranks_frame)
qed

lemma rerank_eq:
  assumes "scores_pairwise E ce" and "documents \<noteq> []"
  shows "rerank E query documents top_k h =
     (Inr (py_take (effective_rerank_top_k E top_k)
             (sort_key (\<lambda>doc. - score (scored ce query documents h doc)) documents)),
      write_ranks 0
        (py_take (effective_rerank_top_k E top_k)
           (sort_key (\<lambda>doc. - score (scored ce query documents h doc)) documents))
        (scored ce query documents h))"
proof -
  have p: "model_predict E (map (\<lambda>doc. (query, doc_text (product (h doc)))) documents) =
      Inr (map (ce_score ce query h) documents)"
    using assms(1) by (simp add: scores_pairwise_def ce_score_def comp_def)
  have w: "write_scores documents (map (ce_score ce query h) documents) h =
      (Inr (), scored ce query documents h)"
    unfolding scored_def by (rule write_scores_map)
  show ?thesis
    using assms(2) by (simp add: rerank_def Let_def p w effective_rerank_top_k_def)
qed

lemma scored_fields:
  "product (scored ce query documents h r) = product (h r)
   \<and> (r \<in> set documents \<longrightarrow> score (scored ce query documents h r) = ce_score ce query h r)
   \<and> (r \<notin> set documents \<longrightarrow> scored ce query documents h r = h r)"
  by (simp add: scored_def)

text \<open>
  Claim C10.  \<^verbatim>\<open>rerank\<close> mutates its input in place.  With a cross-encoder that scores every
  pair on its own, a call with a non-empty document list returns, and afterwards every document
  of the input list, also one that the truncation cuts off and that is not in the returned
  list, carries the cross-encoder score in its score field (its product is unchanged).  The
  returned documents are among the input documents, and no other object of the store changes.
  In the example that follows the theorem the document at address 0 is cut off, and its score
  has changed from the vector score 0.9 to the cross-encoder score 0.1.
\<close>

theorem rerank_overwrites_scores:
  assumes "scores_pairwise E ce" and "documents \<noteq> []"
  shows "\<exists>reranked h'. rerank E query documents top_k h = (Inr reranked, h')
     \<and> (\<forall>d\<in>set documents. score (h' d) = ce_score ce query h d \<and> product (h' d) = product (h d))
     \<and> set reranked \<subseteq> set documents
     \<and> (\<forall>r. r \<notin> set documents \<longrightarrow> h' r = h r)"
proof -
  define h1 where "h1 = scored ce query documents h"
  define reranked where
    "reranked = py_take (effective_rerank_top_k E top_k) (sort_key (\<lambda>doc. - score (h1 doc)) documents)"
  define h' where "h' = write_ranks 0 reranked h1"
  have r: "rerank E query documents top_k h = (Inr reranked, h')"
    unfolding h'_def reranked_def h1_def by (rule rerank_eq [OF assms])
  have sub: "set reranked \<subseteq> set documents"
    unfolding reranked_def using set_py_take [of _ "sort_key (\<lambda>doc. - score (h1 doc)) documents"]
    by simp
  have s: "\<forall>d\<in>set documents. score (h' d) = ce_score ce query h d \<and> product (h' d) = product (h d)"
    unfolding h'_def h1_def by (simp add: write_ranks_fields scored_fields)
  have f: "\<forall>r. r \<notin> set documents \<longrightarrow> h' r = h r"
  proof (intro allI impI)
    fix r assume n: "r \<notin> set documents"
    with sub have "r \<notin> set reranked" by blast
    then have "h' r = h1 r" unfolding h'_def by (rule write_ranks_frame)
    with n show "h' r = h r" by (simp add: h1_def scored_fields)
  qed
  from r s sub f show ?thesis by blast
qed

theorem rerank_overwrites_scores_witness:
  "fst (rerank reranker0 q1 [0, 1, 2, 3] None heap0) = Inr [1, 3, 2]
   \<and> score (heap0 0) = 0.9
   \<and> score (snd (rerank reranker0 q1 [0, 1, 2, 3] None heap0) 0) = 0.1
   \<and> ce_score ce0 q1 heap0 0 = 0.1"
proof -
  have sp: "scores_pairwise reranker0 ce0"
    by (simp add: scores_pairwise_def reranker0_def)
  have ne: "[0, 1, 2, 3] \<noteq> ([] :: ref list)" by simp
  have out: "fst (rerank reranker0 q1 [0, 1, 2, 3] None heap0) = Inr [1, 3, 2]" by code_simp
  have old: "score (heap0 0) = 0.9" by (simp add: heap0_def docs0_def)
  have c: "ce_score ce0 q1 heap0 0 = 0.1"
    by (simp add: ce_score_def ce0_def heap0_def docs0_def named_def doc_text_def truthy_seq_def)
  from rerank_overwrites_scores [OF sp ne, of q1 None heap0]
  have "score (snd (rerank reranker0 q1 [0, 1, 2, 3] None heap0) 0) = ce_score ce0 q1 heap0 0"
    by auto
  with out old c show ?thesis by simp
qed

text \<open>
  Claim C9.  With a deterministic cross-encoder that scores every pair on its own, let a
  document list be sorted by descending cross-encoder score and let its size be at most the
  effective result width (the argument \<^verbatim>\<open>top_k\<close>, or \<^verbatim>\<open>RERANK_TOP_K\<close> when it is absent
  or 0).  Then \<^verbatim>\<open>rerank\<close> returns the same documents in the same order, and applying it
  again, to its own output in the store it left, returns the same list and leaves the store as
  it is: the same documents, order, scores and ranks.
\<close>

theorem rerank_idempotent_on_sorted:
  assumes "scores_pairwise E ce"
    and "sorted_wrt (\<lambda>a b. ce_score ce query h b \<le> ce_score ce query h a) documents"
    and "int (length documents) \<le> effective_rerank_top_k E top_k"
  shows "\<exists>h'. rerank E query documents top_k h = (Inr documents, h')
       \<and> rerank E query documents top_k h' = (Inr documents, h')"
proof (cases "documents = []")
  case True
  then show ?thesis by (simp add: rerank_def)
next
  case False
  define h1 where "h1 = scored ce query documents h"
  define h' where "h' = write_ranks 0 documents h1"
  have key1: "map (\<lambda>doc. - score (h1 doc)) documents = map (\<lambda>doc. - ce_score ce query h doc) documents"
    by (simp add: h1_def scored_fields)
  have srt: "sorted (map (\<lambda>doc. - ce_score ce query h doc) documents)"
    using assms(2) by (simp add: sorted_wrt_map)
  have "sort_key (\<lambda>doc. - score (h1 doc)) documents = documents"
    by (rule sort_key_id_if_sorted) (simp only: key1 srt)
  then have out1: "py_take (effective_rerank_top_k E top_k)
      (sort_key (\<lambda>doc. - score (h1 doc)) documents) = documents"
    using assms(3) by (simp add: py_take_def)
  have first: "rerank E query documents top_k h = (Inr documents, h')"
    using rerank_eq [OF assms(1) False, of query top_k h] out1
    by (simp add: h1_def h'_def)
  have prod: "\<And>r. product (h' r) = product (h r)"
    by (simp add: h'_def h1_def write_ranks_fields scored_fields)
  have ce': "\<And>r. ce_score ce query h' r = ce_score ce query h r"
    by (simp add: ce_score_def prod)
  have sc: "\<And>r. r \<in> set documents \<Longrightarrow> score (h' r) = ce_score ce query h r"
    by (simp add: h'_def h1_def write_ranks_fields scored_fields)
  have same: "scored ce query documents h' = h'"
    by (rule ext) (simp add: scored_def ce' sc)
  have key2: "map (\<lambda>doc. - score (h' doc)) documents = map (\<lambda>doc. - ce_score ce query h doc) documents"
    by (simp add: sc)
  have "sort_key (\<lambda>doc. - score (h' doc)) documents = documents"
    by (rule sort_key_id_if_sorted) (simp only: key2 srt)
  then have out2: "py_take (effective_rerank_top_k E top_k)
      (sort_key (\<lambda>doc. - score (h' doc)) documents) = documents"
    using assms(3) by (simp add: py_take_def)
  have idem: "write_ranks 0 documents h' = h'"
    unfolding h'_def by (rule write_ranks_idem)
  have second: "rerank E query documents top_k h' = (Inr documents, h')"
    using rerank_eq [OF assms(1) False, of query top_k h'] by (simp add: same out2 idem)
  from first second show ?thesis by blast
qed

theorem rerank_idempotent_on_sorted_witness:
  "fst (rerank reranker0 q1 [1, 3, 2] None heap0) = Inr [1, 3, 2]
   \<and> rerank reranker0 q1 [1, 3, 2] None (snd (rerank reranker0 q1 [1, 3, 2] None heap0))
       = rerank reranker0 q1 [1, 3, 2] None heap0"
proof -
  have sp: "scores_pairwise reranker0 ce0"
    by (simp add: scores_pairwise_def reranker0_def)
  have so: "sorted_wrt (\<lambda>a b. ce_score ce0 q1 heap0 b \<le> ce_score ce0 q1 heap0 a) [1, 3, 2]"
    by (simp add: ce_score_def ce0_def heap0_def docs0_def named_def doc_text_def truthy_seq_def)
  have le: "int (length [1, 3, 2 :: ref]) \<le> effective_rerank_top_k reranker0 None"
    by (simp add: effective_rerank_top_k_def reranker0_def default_settings_def py_or_def)
  from rerank_idempotent_on_sorted [OF sp so le] obtain h' where
    a: "rerank reranker0 q1 [1, 3, 2] None heap0 = (Inr [1, 3, 2], h')"
    and b: "rerank reranker0 q1 [1, 3, 2] None h' = (Inr [1, 3, 2], h')" by blast
  show ?thesis unfolding a using b by simp
qed

section \<open>Verification of the pipeline\<close>

lemma run_from_unfold:
  "run_from P n state =
     (case run_node P n state of
        Inl e \<Rightarrow> [(n, Inl e)]
      | Inr state' \<Rightarrow>
          (n, Inr state') #
            (case next_node n state' of None \<Rightarrow> [] | Some n' \<Rightarrow> run_from P n' state'))"
  by (rule run_from.simps)

lemma run_node_from_cache:
  "n \<noteq> CheckCache \<Longrightarrow> run_node P n state = Inr state' \<Longrightarrow> from_cache state' = from_cache state"
  by (cases n)
     (auto simp: preprocess_def detect_intent_node_def retrieve_node_def rerank_node_def
         generate_def cache_response_def split: sum.splits option.splits if_splits prod.splits)

lemma next_node_not_CheckCache: "next_node n state \<noteq> Some CheckCache"
  by (cases n) (auto split: route.splits)

lemma nodes_after:
  "(m, r) \<in> set (run_from P n state) \<Longrightarrow> stage m \<le> stage n"
proof (induction P n state rule: run_from.induct)
  case (1 P n state)
  show ?case
  proof (cases "run_node P n state")
    case (Inl e)
    with "1.prems" show ?thesis by (simp add: run_from_unfold [of P n state])
  next
    case (Inr state')
    show ?thesis
    proof (cases "next_node n state'")
      case None
      with Inr "1.prems" show ?thesis by (simp add: run_from_unfold [of P n state])
    next
      case (Some n')
      have lt: "stage n' < stage n"
        using Some by (cases n) (auto simp: stage_def split: route.splits)
      from Inr Some "1.prems" have "(m, r) = (n, Inr state') \<or> (m, r) \<in> set (run_from P n' state')"
        by (simp add: run_from_unfold [of P n state])
      then show ?thesis
      proof
        assume "(m, r) = (n, Inr state')"
        then show ?thesis by simp
      next
        assume "(m, r) \<in> set (run_from P n' state')"
        from "1.IH" [OF Inr Some this] lt show ?thesis by simp
      qed
    qed
  qed
qed

lemma not_cached_after:
  "\<not> from_cache state \<Longrightarrow> n \<noteq> CheckCache \<Longrightarrow> (m, Inr s) \<in> set (run_from P n state)
     \<Longrightarrow> \<not> from_cache s"
proof (induction P n state rule: run_from.induct)
  case (1 P n state)
  show ?case
  proof (cases "run_node P n state")
    case (Inl e)
    with "1.prems" show ?thesis by (simp add: run_from_unfold [of P n state])
  next
    case (Inr state')
    have fc: "\<not> from_cache state'"
      using run_node_from_cache [OF "1.prems"(2) Inr] "1.prems"(1) by simp
    show ?thesis
    proof (cases "next_node n state'")
      case None
      with Inr "1.prems" fc show ?thesis by (auto simp: run_from_unfold [of P n state])
    next
      case (Some n')
      have ne: "n' \<noteq> CheckCache" using Some next_node_not_CheckCache [of n state'] by auto
      from Inr Some "1.prems" have "(m, Inr s) = (n, Inr state') \<or> (m, Inr s) \<in> set (run_from P n' state')"
        by (simp add: run_from_unfold [of P n state])
      then show ?thesis
      proof
        assume "(m, Inr s) = (n, Inr state')"
        with fc show ?thesis by simp
      next
        assume "(m, Inr s) \<in> set (run_from P n' state')"
        from "1.IH" [OF Inr Some fc ne this] show ?thesis .
      qed
    qed
  qed
qed

lemma run_from_hd: "\<exists>r rest. run_from P n state = (n, r) # rest"
  by (cases "run_node P n state") (simp_all add: run_from_unfold [of P n state])

lemma step_after:
  "run_from P n state = pre @ (m, Inr s) # post \<Longrightarrow>
   post = (case next_node m s of None \<Rightarrow> [] | Some m' \<Rightarrow> run_from P m' s)"
proof (induction P n state arbitrary: pre rule: run_from.induct)
  case (1 P n state)
  show ?case
  proof (cases "run_node P n state")
    case (Inl e)
    with "1.prems" have "[(n, Inl e)] = pre @ (m, Inr s) # post"
      by (simp add: run_from_unfold [of P n state])
    then show ?thesis by (cases pre) auto
  next
    case (Inr state')
    define rest where
      "rest = (case next_node n state' of None \<Rightarrow> [] | Some n' \<Rightarrow> run_from P n' state')"
    from Inr "1.prems" have eq: "(n, Inr state') # rest = pre @ (m, Inr s) # post"
      by (simp add: run_from_unfold [of P n state] rest_def)
    show ?thesis
    proof (cases pre)
      case Nil
      with eq have "m = n" "s = state'" "post = rest" by auto
      then show ?thesis by (simp add: rest_def split: option.splits)
    next
      case (Cons x pre')
      with eq have r: "rest = pre' @ (m, Inr s) # post" by simp
      show ?thesis
      proof (cases "next_node n state'")
        case None
        with r show ?thesis by (simp add: rest_def)
      next
        case (Some n')
        with r have "run_from P n' state' = pre' @ (m, Inr s) # post" by (simp add: rest_def)
        from "1.IH" [OF Inr Some this] show ?thesis .
      qed
    qed
  qed
qed

lemma stages_decrease:
  "sorted_wrt (\<lambda>a b. stage (fst b) < stage (fst a)) (run_from P n state)"
proof (induction P n state rule: run_from.induct)
  case (1 P n state)
  show ?case
  proof (cases "run_node P n state")
    case (Inl e)
    then show ?thesis by (simp add: run_from_unfold [of P n state])
  next
    case (Inr state')
    show ?thesis
    proof (cases "next_node n state'")
      case None
      with Inr show ?thesis by (simp add: run_from_unfold [of P n state])
    next
      case (Some n')
      have lt: "stage n' < stage n"
        using Some by (cases n) (auto simp: stage_def split: route.splits)
      have "\<forall>x\<in>set (run_from P n' state'). stage (fst x) < stage n"
      proof
        fix x assume "x \<in> set (run_from P n' state')"
        then have "(fst x, snd x) \<in> set (run_from P n' state')" by simp
        from nodes_after [OF this] lt show "stage (fst x) < stage n" by simp
      qed
      with "1.IH" [OF Inr Some] Inr Some show ?thesis
        by (simp add: run_from_unfold [of P n state])
    qed
  qed
qed

lemma cached_only_first:
  assumes "(m, Inr s) \<in> set (run_from P CheckCache state)" and "from_cache s"
  shows "run_from P CheckCache state = [(CheckCache, Inr s)]"
proof (cases "check_cache P state")
  case (Inl e)
  with assms(1) show ?thesis by (simp add: run_from_unfold [of P CheckCache state])
next
  case (Inr s1)
  show ?thesis
  proof (cases "from_cache s1")
    case True
    with Inr have t: "run_from P CheckCache state = [(CheckCache, Inr s1)]"
      by (simp add: run_from_unfold [of P CheckCache state] should_use_cache_def)
    with assms(1) show ?thesis by simp
  next
    case False
    with Inr have t: "run_from P CheckCache state = (CheckCache, Inr s1) # run_from P Preprocess s1"
      by (simp add: run_from_unfold [of P CheckCache state] should_use_cache_def)
    from assms(1) t have "(m, Inr s) = (CheckCache, Inr s1) \<or> (m, Inr s) \<in> set (run_from P Preprocess s1)"
      by simp
    then have "\<not> from_cache s"
    proof
      assume "(m, Inr s) = (CheckCache, Inr s1)"
      with False show ?thesis by simp
    next
      assume "(m, Inr s) \<in> set (run_from P Preprocess s1)"
      from not_cached_after [OF False _ this] show ?thesis by simp
    qed
    with assms(2) show ?thesis by simp
  qed
qed

lemma run_from_step:
  "run_node P n state = Inr state' \<Longrightarrow> next_node n state' = Some n'
     \<Longrightarrow> run_from P n state = (n, Inr state') # run_from P n' state'"
  by (simp add: run_from_unfold [of P n state])

text \<open>
  Claim C2.  When the cache lookup of \<^verbatim>\<open>check_cache\<close> is a hit (it returns a response that
  is not empty), the run consists of the node \<^verbatim>\<open>check_cache\<close> alone: no later stage is
  run, and the final state is the initial state with \<^verbatim>\<open>from_cache\<close> true and
  \<^verbatim>\<open>final_response\<close> the cached value.  In every run, a node that returns a state with
  \<^verbatim>\<open>from_cache\<close> true is the last node of the run, so no later step overwrites
  \<^verbatim>\<open>final_response\<close>.
\<close>

theorem cache_hit_short_circuit:
  "(cache_get P query = Inr (Some cached) \<and> cached \<noteq> [] \<longrightarrow>
      run_trace P query uid sid =
        [(CheckCache,
          Inr ((initial_state query uid sid)\<lparr>final_response := Some cached, from_cache := True\<rparr>))]
      \<and> run P query uid sid =
          Inr ((initial_state query uid sid)\<lparr>final_response := Some cached, from_cache := True\<rparr>))
   \<and> (\<forall>pre m s post. run_trace P query uid sid = pre @ (m, Inr s) # post \<and> from_cache s
          \<longrightarrow> post = [])
   \<and> (\<forall>pre m s mid m' s' post.
          run_trace P query uid sid = pre @ (m, Inr s) # mid @ (m', Inr s') # post \<and> from_cache s
          \<longrightarrow> final_response s' = final_response s)"
proof (intro conjI impI allI)
  assume hit: "cache_get P query = Inr (Some cached) \<and> cached \<noteq> []"
  then have c: "check_cache P (initial_state query uid sid) =
      Inr ((initial_state query uid sid)\<lparr>final_response := Some cached, from_cache := True\<rparr>)"
    by (simp add: check_cache_def initial_state_def truthy_seq_def)
  then show t: "run_trace P query uid sid =
        [(CheckCache,
          Inr ((initial_state query uid sid)\<lparr>final_response := Some cached, from_cache := True\<rparr>))]"
    by (simp add: run_trace_def run_from_unfold [of P CheckCache] should_use_cache_def)
  show "run P query uid sid =
      Inr ((initial_state query uid sid)\<lparr>final_response := Some cached, from_cache := True\<rparr>)"
    by (simp add: run_def t)
next
  fix pre m s post
  assume a: "run_trace P query uid sid = pre @ (m, Inr s) # post \<and> from_cache s"
  then have "(m, Inr s) \<in> set (run_from P CheckCache (initial_state query uid sid))"
    by (simp add: run_trace_def)
  from cached_only_first [OF this] a
  have "pre @ (m, Inr s) # post = [(CheckCache, Inr s)]" by (simp add: run_trace_def)
  then show "post = []" by (cases pre) auto
next
  fix pre m s mid m' s' post
  assume a: "run_trace P query uid sid = pre @ (m, Inr s) # mid @ (m', Inr s') # post
     \<and> from_cache s"
  then have "(m, Inr s) \<in> set (run_from P CheckCache (initial_state query uid sid))"
    by (simp add: run_trace_def)
  from cached_only_first [OF this] a
  have "pre @ (m, Inr s) # mid @ (m', Inr s') # post = [(CheckCache, Inr s)]"
    by (simp add: run_trace_def)
  then have False by (cases pre) auto
  then show "final_response s' = final_response s" ..
qed

theorem cache_hit_short_circuit_witness:
  "cache_get pipeline0 q1 = Inr (Some cached_answer) \<and> cached_answer \<noteq> []
   \<and> map fst (run_trace pipeline0 q1 [] None) = [CheckCache]
   \<and> run pipeline0 q1 [] None =
       Inr ((initial_state q1 [] None)\<lparr>final_response := Some cached_answer, from_cache := True\<rparr>)"
proof -
  have h: "cache_get pipeline0 q1 = Inr (Some cached_answer) \<and> cached_answer \<noteq> []"
    by (simp add: pipeline0_def cached_answer_def)
  with cache_hit_short_circuit [of pipeline0 q1 cached_answer "[]" None]
  have t: "run_trace pipeline0 q1 [] None =
        [(CheckCache,
          Inr ((initial_state q1 [] None)\<lparr>final_response := Some cached_answer, from_cache := True\<rparr>))]"
    and r: "run pipeline0 q1 [] None =
       Inr ((initial_state q1 [] None)\<lparr>final_response := Some cached_answer, from_cache := True\<rparr>)"
    by blast+
  from h t r show ?thesis by simp
qed

text \<open>
  Claim C8.  In every run that reaches \<^verbatim>\<open>detect_intent\<close> and gets a state from it: when
  the detected intent is GREETING the next node is \<^verbatim>\<open>generate\<close>, and neither
  \<^verbatim>\<open>retrieve\<close> nor \<^verbatim>\<open>rerank\<close> is run anywhere in the run; for every other intent the
  next node is \<^verbatim>\<open>retrieve\<close>.
\<close>

theorem greeting_skips_retrieval:
  "\<forall>pre s post. run_trace P query uid sid = pre @ (DetectIntent, Inr s) # post \<longrightarrow>
     (st_intent s = Some GREETING \<longrightarrow>
        next_node DetectIntent s = Some Generate
        \<and> (\<exists>r rest. post = (Generate, r) # rest)
        \<and> Retrieve \<notin> fst ` set (run_trace P query uid sid)
        \<and> Rerank \<notin> fst ` set (run_trace P query uid sid))
     \<and> (st_intent s \<noteq> Some GREETING \<longrightarrow>
        next_node DetectIntent s = Some Retrieve
        \<and> (\<exists>r rest. post = (Retrieve, r) # rest))"
proof (intro allI impI)
  fix pre s post
  assume t: "run_trace P query uid sid = pre @ (DetectIntent, Inr s) # post"
  then have t': "run_from P CheckCache (initial_state query uid sid) =
      pre @ (DetectIntent, Inr s) # post" by (simp add: run_trace_def)
  from step_after [OF t']
  have post: "post = (case next_node DetectIntent s of None \<Rightarrow> [] | Some m' \<Rightarrow> run_from P m' s)" .
  have dec: "sorted_wrt (\<lambda>a b. stage (fst b) < stage (fst a)) (pre @ (DetectIntent, Inr s) # post)"
    using stages_decrease [of P CheckCache "initial_state query uid sid"] t' by simp
  show "(st_intent s = Some GREETING \<longrightarrow>
        next_node DetectIntent s = Some Generate
        \<and> (\<exists>r rest. post = (Generate, r) # rest)
        \<and> Retrieve \<notin> fst ` set (run_trace P query uid sid)
        \<and> Rerank \<notin> fst ` set (run_trace P query uid sid))
     \<and> (st_intent s \<noteq> Some GREETING \<longrightarrow>
        next_node DetectIntent s = Some Retrieve
        \<and> (\<exists>r rest. post = (Retrieve, r) # rest))"
  proof (intro conjI impI)
    assume g: "st_intent s = Some GREETING"
    then show n: "next_node DetectIntent s = Some Generate" by (simp add: should_retrieve_def)
    with post have p: "post = run_from P Generate s" by simp
    with run_from_hd [of P Generate s] show "\<exists>r rest. post = (Generate, r) # rest" by simp
    have a: "\<forall>x\<in>set pre. stage (fst x) > 4"
      using dec by (auto simp: sorted_wrt_append stage_def)
    have b: "\<forall>x\<in>set post. stage (fst x) \<le> 1"
    proof
      fix x assume "x \<in> set post"
      then have "(fst x, snd x) \<in> set (run_from P Generate s)" using p by simp
      from nodes_after [OF this] show "stage (fst x) \<le> 1" by (simp add: stage_def)
    qed
    have "\<forall>x\<in>set (run_trace P query uid sid). stage (fst x) \<noteq> 3 \<and> stage (fst x) \<noteq> 2"
      unfolding t using a b by (auto simp: stage_def)
    then show "Retrieve \<notin> fst ` set (run_trace P query uid sid)"
      and "Rerank \<notin> fst ` set (run_trace P query uid sid)"
      by (auto simp: stage_def)
  next
    assume g: "st_intent s \<noteq> Some GREETING"
    then show n: "next_node DetectIntent s = Some Retrieve" by (simp add: should_retrieve_def)
    with post have p: "post = run_from P Retrieve s" by simp
    with run_from_hd [of P Retrieve s] show "\<exists>r rest. post = (Retrieve, r) # rest" by simp
  qed
qed

lemma prefix_of_run:
  assumes miss: "q \<noteq> q1"
  shows "\<exists>pre post. run_trace pipeline0 q [] None =
     pre @ (DetectIntent,
        Inr ((initial_state q [] None)\<lparr>normalized_query := Some q,
               st_intent := Some (detect_intent engine0 q),
               st_slots := Some (extract_slots engine0 q)\<rparr>)) # post"
proof -
  define s0 where "s0 = initial_state q [] None"
  define s1 where "s1 = s0\<lparr>normalized_query := Some q\<rparr>"
  define s2 where "s2 = s1\<lparr>st_intent := Some (detect_intent engine0 q),
               st_slots := Some (extract_slots engine0 q)\<rparr>"
  have c: "run_node pipeline0 CheckCache s0 = Inr s0"
    using miss by (simp add: check_cache_def pipeline0_def s0_def initial_state_def truthy_seq_def)
  have n0: "next_node CheckCache s0 = Some Preprocess"
    by (simp add: should_use_cache_def s0_def initial_state_def)
  have p: "run_node pipeline0 Preprocess s0 = Inr s1"
    by (simp add: preprocess_def pipeline0_def s1_def s0_def initial_state_def)
  have n1: "next_node Preprocess s1 = Some DetectIntent" by simp
  have d: "run_node pipeline0 DetectIntent s1 = Inr s2"
    by (simp add: detect_intent_node_def pipeline0_def s2_def s1_def s0_def initial_state_def
        parse_query_def Let_def)
  obtain post where "run_from pipeline0 DetectIntent s1 = (DetectIntent, Inr s2) # post"
    using d by (simp add: run_from_unfold [of pipeline0 DetectIntent s1])
  then have "run_trace pipeline0 q [] None =
      [(CheckCache, Inr s0), (Preprocess, Inr s1)] @ (DetectIntent, Inr s2) # post"
    by (simp add: run_trace_def s0_def [symmetric] run_from_step [OF c n0] run_from_step [OF p n1])
  then show ?thesis unfolding s2_def s1_def s0_def by blast
qed

theorem greeting_skips_retrieval_witness:
  "(\<exists>pre s post. run_trace pipeline0 WORD_SALAM [] None = pre @ (DetectIntent, Inr s) # post
       \<and> st_intent s = Some GREETING
       \<and> (\<exists>r rest. post = (Generate, r) # rest)
       \<and> Retrieve \<notin> fst ` set (run_trace pipeline0 WORD_SALAM [] None)
       \<and> Rerank \<notin> fst ` set (run_trace pipeline0 WORD_SALAM [] None))
   \<and> (\<exists>pre s post. run_trace pipeline0 txt_tie [] None = pre @ (DetectIntent, Inr s) # post
       \<and> st_intent s = Some AVAILABILITY
       \<and> (\<exists>r rest. post = (Retrieve, r) # rest))"
proof -
  have m1: "WORD_SALAM \<noteq> q1" by (simp add: WORD_SALAM_def q1_def)
  have m2: "txt_tie \<noteq> q1" by (simp add: txt_tie_def q1_def WORD_KHARID_def)
  have i1: "detect_intent engine0 WORD_SALAM = GREETING" by code_simp
  have i2: "detect_intent engine0 txt_tie = AVAILABILITY" by code_simp
  define s1 where "s1 = (initial_state WORD_SALAM [] None)\<lparr>normalized_query := Some WORD_SALAM,
               st_intent := Some (detect_intent engine0 WORD_SALAM),
               st_slots := Some (extract_slots engine0 WORD_SALAM)\<rparr>"
  define s2 where "s2 = (initial_state txt_tie [] None)\<lparr>normalized_query := Some txt_tie,
               st_intent := Some (detect_intent engine0 txt_tie),
               st_slots := Some (extract_slots engine0 txt_tie)\<rparr>"
  from prefix_of_run [OF m1] obtain pre1 post1 where
    t1: "run_trace pipeline0 WORD_SALAM [] None = pre1 @ (DetectIntent, Inr s1) # post1"
    unfolding s1_def by blast
  from prefix_of_run [OF m2] obtain pre2 post2 where
    t2: "run_trace pipeline0 txt_tie [] None = pre2 @ (DetectIntent, Inr s2) # post2"
    unfolding s2_def by blast
  have g1: "st_intent s1 = Some GREETING" by (simp add: s1_def i1)
  have g2: "st_intent s2 = Some AVAILABILITY" by (simp add: s2_def i2)
  from greeting_skips_retrieval [of pipeline0 WORD_SALAM "[]" None] t1 g1
  have a: "(\<exists>r rest. post1 = (Generate, r) # rest)
       \<and> Retrieve \<notin> fst ` set (run_trace pipeline0 WORD_SALAM [] None)
       \<and> Rerank \<notin> fst ` set (run_trace pipeline0 WORD_SALAM [] None)" by blast
  have "st_intent s2 \<noteq> Some GREETING" using g2 by simp
  with greeting_skips_retrieval [of pipeline0 txt_tie "[]" None] t2
  have b: "\<exists>r rest. post2 = (Retrieve, r) # rest" by blast
  from t1 g1 a t2 g2 b show ?thesis by blast
qed

end
